theory Spec2Isabelle
  imports Main "HOL-Library.Sublist" "HOL-Library.Multiset"
begin

section \<open>JavaScript strings\<close>

text \<open>
  A JavaScript string is modelled as a \<^typ>\<open>string\<close>: the list of its characters, read as
  the bytes of its UTF-8 form. White space is the ASCII white space of \<open>String.prototype.trim\<close>
  and of the regular expression class \<open>\s\<close> (tab, line feed, vertical tab, form feed, carriage
  return, space); the line terminators that the regular expression \<open>.\<close> refuses are line feed
  and carriage return. The white space and line terminators beyond ASCII are not modelled.
\<close>

abbreviation (input) LF :: char where "LF \<equiv> CHR 0x0A"
abbreviation (input) CR :: char where "CR \<equiv> CHR 0x0D"

definition is_ws :: "char \<Rightarrow> bool" where
  "is_ws c = (c = CHR 0x09 \<or> c = CHR 0x0A \<or> c = CHR 0x0B \<or> c = CHR 0x0C \<or> c = CHR 0x0D \<or> c = CHR 0x20)"

definition is_lt :: "char \<Rightarrow> bool" where
  "is_lt c = (c = LF \<or> c = CR)"

definition trim :: "string \<Rightarrow> string" where
  "trim s = rev (dropWhile is_ws (rev (dropWhile is_ws s)))"

definition startsWith :: "string \<Rightarrow> string \<Rightarrow> bool" where
  "startsWith s p = (take (length p) s = p)"

definition endsWith :: "string \<Rightarrow> string \<Rightarrow> bool" where
  "endsWith s p = (length p \<le> length s \<and> drop (length s - length p) s = p)"

text \<open>\<open>s.includes(p)\<close>: \<open>p\<close> occurs in \<open>s\<close> as a contiguous run.\<close>

fun str_includes :: "string \<Rightarrow> string \<Rightarrow> bool" where
  "str_includes [] p = (p = [])"
| "str_includes (c # cs) p = (startsWith (c # cs) p \<or> str_includes cs p)"

text \<open>\<open>s.split(c)\<close> for a separator of one character: never empty, \<open>''''.split(c)\<close> is \<open>['''']\<close>.\<close>

fun split :: "char \<Rightarrow> string \<Rightarrow> string list" where
  "split c [] = [[]]"
| "split c (x # xs) =
     (if x = c then [] # split c xs
      else (case split c xs of [] \<Rightarrow> [[x]] | l # ls \<Rightarrow> (x # l) # ls))"

text \<open>\<open>lines.join(sep)\<close>.\<close>

fun join :: "string \<Rightarrow> string list \<Rightarrow> string" where
  "join sep [] = []"
| "join sep [l] = l"
| "join sep (l # ls) = l @ sep @ join sep ls"

text \<open>\<open>toLowerCase\<close> and \<open>toUpperCase\<close> on the ASCII letters.\<close>

definition lower_char :: "char \<Rightarrow> char" where
  "lower_char c = (let n = (of_char c :: nat) in if 65 \<le> n \<and> n \<le> 90 then char_of (n + 32) else c)"

definition upper_char :: "char \<Rightarrow> char" where
  "upper_char c = (let n = (of_char c :: nat) in if 97 \<le> n \<and> n \<le> 122 then char_of (n - 32) else c)"

definition toLowerCase :: "string \<Rightarrow> string" where
  "toLowerCase s = map lower_char s"

definition toUpperCase :: "string \<Rightarrow> string" where
  "toUpperCase s = map upper_char s"

text \<open>\<open>s.indexOf(c)\<close> for a character that occurs in \<open>s\<close>: the length of the run before it.\<close>

definition indexOfChar :: "string \<Rightarrow> char \<Rightarrow> nat" where
  "indexOfChar s c = length (takeWhile (\<lambda>x. x \<noteq> c) s)"

section \<open>The request model (types)\<close>

datatype http_method = GET | POST | PUT | DELETE | PATCH | HEAD | OPTIONS | CONNECT | TRACE

fun method_name :: "http_method \<Rightarrow> string" where
  "method_name GET = ''GET''"
| "method_name POST = ''POST''"
| "method_name PUT = ''PUT''"
| "method_name DELETE = ''DELETE''"
| "method_name PATCH = ''PATCH''"
| "method_name HEAD = ''HEAD''"
| "method_name OPTIONS = ''OPTIONS''"
| "method_name CONNECT = ''CONNECT''"
| "method_name TRACE = ''TRACE''"

definition all_methods :: "http_method list" where
  "all_methods = [GET, POST, PUT, DELETE, PATCH, HEAD, OPTIONS, CONNECT, TRACE]"

text \<open>\<open>RequestHeader\<close> and \<open>QueryParam\<close> have the same fields.\<close>

record kv_entry =
  key :: string
  val :: string
  enabled :: bool
  kv_description :: "string option"

type_synonym request_header = kv_entry
type_synonym query_param = kv_entry

datatype body_type = none | json | form | formdata | raw | binary | graphql

datatype field_type = text_field | file_field

record form_field =
  fkey :: string
  fval :: string
  ftype :: field_type
  fenabled :: bool

record graphql_body =
  query :: string
  variables :: "string option"

record request_body =
  btype :: body_type
  content :: "string option"
  formData :: "form_field list option"
  gql :: "graphql_body option"

text \<open>
  A file location: a live \<open>vscode.Uri\<close> (given by its path), or the plain object that is left
  of one after it crossed the webview boundary (its \<open>fsPath\<close>, its \<open>path\<close> and what its
  \<open>toString()\<close> returns, each possibly missing).
\<close>

datatype uri_like = Uri string | PlainObject "string option" "string option" "string option"

text \<open>
  \<open>Uri.toString()\<close> of a file location: the scheme, \<open>//\<close> and the path, in which every byte
  other than a letter, a digit, \<open>- . _ ~\<close> and \<open>/\<close> is written \<open>%XX\<close> with upper-case
  hexadecimal digits. Paths are absolute POSIX paths, without drive letter and without
  authority.
\<close>

definition hex_digit :: "nat \<Rightarrow> char" where
  "hex_digit n = (if n < 10 then char_of (48 + n) else char_of (55 + n))"

definition path_unreserved :: "char \<Rightarrow> bool" where
  "path_unreserved c =
     (let n = (of_char c :: nat) in
      (48 \<le> n \<and> n \<le> 57) \<or> (65 \<le> n \<and> n \<le> 90) \<or> (97 \<le> n \<and> n \<le> 122) \<or>
      c \<in> set [CHR ''-'', CHR ''.'', CHR ''_'', CHR ''~'', CHR ''/''])"

definition encode_path_char :: "char \<Rightarrow> string" where
  "encode_path_char c =
     (if path_unreserved c then [c]
      else [CHR ''%'', hex_digit ((of_char c :: nat) div 16), hex_digit ((of_char c :: nat) mod 16)])"

fun uri_toString :: "uri_like \<Rightarrow> string" where
  "uri_toString (Uri p) = ''file://'' @ concat (map encode_path_char p)"
| "uri_toString (PlainObject f p s) = (case s of Some t \<Rightarrow> t | None \<Rightarrow> ''[object Object]'')"

fun uri_fsPath :: "uri_like \<Rightarrow> string" where
  "uri_fsPath (Uri p) = p"
| "uri_fsPath (PlainObject f p s) = (case f of Some t \<Rightarrow> t | None \<Rightarrow> [])"

text \<open>\<open>UIRequest\<close>; its \<open>auth\<close> field, which neither the parser nor the generator reads, is left out.\<close>

record ui_request =
  req_id :: string
  name :: string
  description :: "string option"
  req_method :: http_method
  url :: string
  headers :: "request_header list"
  queryParams :: "query_param list"
  body :: request_body
  tests :: "string option"
  preRequest :: "string option"
  tags :: "string list option"
  fileUri :: "uri_like option"
  collectionPath :: "string option"

section \<open>The parser: \<open>CollectionParser.detectBodyType\<close>\<close>

text \<open>\<open>headers.find(h => h.key.toLowerCase() === 'content-type')?.value?.toLowerCase() || ''\<close>\<close>

definition declaredContentType :: "request_header list \<Rightarrow> string" where
  "declaredContentType hs =
     (case find (\<lambda>h. toLowerCase (key h) = ''content-type'') hs of
        None \<Rightarrow> []
      | Some h \<Rightarrow> toLowerCase (val h))"

definition detectBodyType :: "string \<Rightarrow> request_header list \<Rightarrow> request_body" where
  "detectBodyType b hs =
     (let contentType = declaredContentType hs in
      if str_includes contentType ''application/json'' \<or> startsWith (trim b) ''{'' \<or> startsWith (trim b) ''[''
      then \<lparr>btype = json, content = Some b, formData = None, gql = None\<rparr>
      else if str_includes contentType ''application/x-www-form-urlencoded''
      then \<lparr>btype = form, content = Some b, formData = None, gql = None\<rparr>
      else if str_includes contentType ''multipart/form-data''
      then \<lparr>btype = formdata, content = Some b, formData = None, gql = None\<rparr>
      else if str_includes contentType ''application/graphql'' \<or> str_includes b ''query'' \<or> str_includes b ''mutation''
      then \<lparr>btype = graphql, content = None, formData = None,
             gql = Some \<lparr>query = b, variables = None\<rparr>\<rparr>
      else \<lparr>btype = raw, content = Some b, formData = None, gql = None\<rparr>)"

section \<open>The parser: \<open>CollectionParser.parseHttpText\<close>\<close>

subsection \<open>The request line\<close>

text \<open>
  The request line is recognised by the regular expression
  \<open>/^(GET|POST|PUT|DELETE|PATCH|HEAD|OPTIONS|CONNECT|TRACE)\s+(.+)$/i\<close>.
  \<open>match_tail\<close> is \<open>\s+(.+)$\<close> on what follows the method and returns the second group:
  \<open>\s+\<close> takes the longest run of white space that leaves a non-empty rest free of line
  terminators; when the rest after the whole run is empty, it gives its last character back
  to the group.
\<close>

definition match_tail :: "string \<Rightarrow> string option" where
  "match_tail r =
     (let k = length (takeWhile is_ws r); u = drop k r in
      if k = 0 then None
      else if u \<noteq> [] then (if list_ex is_lt u then None else Some u)
      else if 2 \<le> k \<and> \<not> is_lt (last r) then Some [last r]
      else None)"

definition match_method :: "string \<Rightarrow> http_method \<Rightarrow> (http_method \<times> string) option" where
  "match_method l m =
     (let n = length (method_name m) in
      if toUpperCase (take n l) = method_name m
      then map_option (Pair m) (match_tail (drop n l)) else None)"

fun first_some :: "('a \<Rightarrow> 'b option) \<Rightarrow> 'a list \<Rightarrow> 'b option" where
  "first_some f [] = None"
| "first_some f (x # xs) = (case f x of Some y \<Rightarrow> Some y | None \<Rightarrow> first_some f xs)"

definition matchRequestLine :: "string \<Rightarrow> (http_method \<times> string) option" where
  "matchRequestLine l = first_some (match_method l) all_methods"

subsection \<open>The query string: \<open>new URLSearchParams(queryString)\<close>\<close>

text \<open>
  The platform's parser of \<open>application/x-www-form-urlencoded\<close> text: a leading \<open>?\<close> is
  removed, the text is cut at every \<open>&\<close>, empty pieces are skipped, each piece is cut at its
  first \<open>=\<close>, every \<open>+\<close> becomes a space and \<open>%XX\<close> becomes the byte \<open>XX\<close>. The bytes that
  result are kept as they are (the platform replaces ill-formed UTF-8 among them).
\<close>

definition hex_val :: "char \<Rightarrow> nat option" where
  "hex_val c =
     (let n = (of_char c :: nat) in
      if 48 \<le> n \<and> n \<le> 57 then Some (n - 48)
      else if 65 \<le> n \<and> n \<le> 70 then Some (n - 55)
      else if 97 \<le> n \<and> n \<le> 102 then Some (n - 87)
      else None)"

fun percent_decode :: "string \<Rightarrow> string" where
  "percent_decode [] = []"
| "percent_decode [c] = [c]"
| "percent_decode [c, d] = [c, d]"
| "percent_decode (c # h1 # h2 # cs) =
     (if c = CHR ''%'' then
        (case (hex_val h1, hex_val h2) of
           (Some a, Some b) \<Rightarrow> char_of (16 * a + b) # percent_decode cs
         | _ \<Rightarrow> c # percent_decode (h1 # h2 # cs))
      else c # percent_decode (h1 # h2 # cs))"

definition plus_to_space :: "string \<Rightarrow> string" where
  "plus_to_space s = map (\<lambda>c. if c = CHR ''+'' then CHR 0x20 else c) s"

definition decode_pair :: "string \<Rightarrow> string \<times> string" where
  "decode_pair p =
     (let n = takeWhile (\<lambda>c. c \<noteq> CHR ''='') p;
          v = drop (length n + 1) p
      in (percent_decode (plus_to_space n), percent_decode (plus_to_space v)))"

definition urlSearchParams :: "string \<Rightarrow> (string \<times> string) list" where
  "urlSearchParams q =
     (let q' = (if startsWith q ''?'' then drop 1 q else q)
      in map decode_pair (filter (\<lambda>p. p \<noteq> []) (split (CHR ''&'') q')))"

subsection \<open>The loop over the lines\<close>

datatype script_type = pre | test

record parse_state =
  request :: ui_request
  inBody :: bool
  bodyLines :: "string list"
  inScript :: bool
  scriptType :: "script_type option"
  scriptLines :: "string list"

text \<open>The request line's branch: method, base URL and query parameters.\<close>

definition setRequestLine :: "ui_request \<Rightarrow> http_method \<Rightarrow> string \<Rightarrow> ui_request" where
  "setRequestLine r m g =
     (let fullUrl = trim g;
          parts = split (CHR ''?'') fullUrl;
          baseUrl = (case parts of [] \<Rightarrow> [] | b # _ \<Rightarrow> b);
          queryString = (case parts of _ # q # _ \<Rightarrow> q | _ \<Rightarrow> [])
      in r\<lparr>req_method := m, url := baseUrl,
            queryParams := queryParams r @
              (if queryString \<noteq> []
               then map (\<lambda>(k, v). \<lparr>key = k, val = v, enabled = True, kv_description = None\<rparr>)
                        (urlSearchParams queryString)
               else [])\<rparr>)"

text \<open>One iteration of \<open>for (const line of lines)\<close>.\<close>

definition parseLine :: "parse_state \<Rightarrow> string \<Rightarrow> parse_state" where
  "parseLine s line =
     (let trimmedLine = trim line; r = request s in
      if trimmedLine = ''###'' then s
      else if startsWith trimmedLine ''# @name ''
      then s\<lparr>request := r\<lparr>name := trim (drop 8 trimmedLine)\<rparr>\<rparr>
      else if startsWith trimmedLine ''# @description ''
      then s\<lparr>request := r\<lparr>description := Some (trim (drop 15 trimmedLine))\<rparr>\<rparr>
      else if startsWith trimmedLine ''# @tag ''
      then s\<lparr>request := r\<lparr>tags := Some (map trim (split (CHR '','') (drop 7 trimmedLine)))\<rparr>\<rparr>
      else if startsWith trimmedLine ''{{''
      then s\<lparr>inScript := True,
             scriptType := Some (if str_includes trimmedLine ''@pre'' then pre else test)\<rparr>
      else if startsWith trimmedLine ''}}''
      then s\<lparr>request :=
               (case scriptType s of
                  Some pre \<Rightarrow> r\<lparr>preRequest := Some (join [LF] (scriptLines s))\<rparr>
                | Some test \<Rightarrow> r\<lparr>tests := Some (join [LF] (scriptLines s))\<rparr>
                | None \<Rightarrow> r),
             inScript := False, scriptType := None, scriptLines := []\<rparr>
      else if inScript s then s\<lparr>scriptLines := scriptLines s @ [line]\<rparr>
      else if startsWith trimmedLine ''#'' \<or> startsWith trimmedLine ''//'' then s
      else
        (case matchRequestLine trimmedLine of
           Some (m, g) \<Rightarrow> s\<lparr>request := setRequestLine r m g\<rparr>
         | None \<Rightarrow>
             if \<not> inBody s \<and> trimmedLine = [] \<and> url r \<noteq> [] then s\<lparr>inBody := True\<rparr>
             else if \<not> inBody s \<and> CHR '':'' \<in> set trimmedLine then
               (let colonIndex = indexOfChar trimmedLine (CHR '':'');
                    k = trim (take colonIndex trimmedLine);
                    v = trim (drop (colonIndex + 1) trimmedLine)
                in if k \<noteq> [] \<and> \<not> startsWith k ''{''
                   then s\<lparr>request := r\<lparr>headers := headers r @
                            [\<lparr>key = k, val = v, enabled = True, kv_description = None\<rparr>]\<rparr>\<rparr>
                   else s)
             else if inBody s then s\<lparr>bodyLines := bodyLines s @ [line]\<rparr>
             else s))"

text \<open>Decimal digits of \<open>Date.now()\<close> in the identifier of a request without a file.\<close>

fun show_nat :: "nat \<Rightarrow> string" where
  "show_nat n = (if n < 10 then [char_of (48 + n)] else show_nat (n div 10) @ [char_of (48 + n mod 10)])"

declare show_nat.simps [simp del]

definition initialRequest :: "nat \<Rightarrow> uri_like option \<Rightarrow> ui_request" where
  "initialRequest now uri =
     \<lparr>req_id = (case uri of
                  Some u \<Rightarrow> (if uri_toString u \<noteq> [] then uri_toString u else ''request-'' @ show_nat now)
                | None \<Rightarrow> ''request-'' @ show_nat now),
      name = ''New Request'', description = None, req_method = GET, url = [],
      headers = [], queryParams = [],
      body = \<lparr>btype = none, content = None, formData = None, gql = None\<rparr>,
      tests = None, preRequest = None, tags = None, fileUri = uri, collectionPath = None\<rparr>"

definition initialState :: "nat \<Rightarrow> uri_like option \<Rightarrow> parse_state" where
  "initialState now uri =
     \<lparr>request = initialRequest now uri, inBody = False, bodyLines = [],
      inScript = False, scriptType = None, scriptLines = []\<rparr>"

text \<open>The body is processed after the loop.\<close>

definition processBody :: "parse_state \<Rightarrow> ui_request" where
  "processBody s =
     (let r = request s in
      if bodyLines s \<noteq> [] then
        (let bodyText = trim (join [LF] (bodyLines s)) in
         if bodyText \<noteq> [] then r\<lparr>body := detectBodyType bodyText (headers r)\<rparr> else r)
      else r)"

text \<open>\<open>parseHttpText(text, fileUri)\<close>, called when the clock reads \<open>now\<close>.\<close>

definition parseHttpText :: "nat \<Rightarrow> string \<Rightarrow> uri_like option \<Rightarrow> ui_request" where
  "parseHttpText now text uri =
     processBody (foldl parseLine (initialState now uri) (split LF text))"

text \<open>The text a body carries: its \<open>content\<close>, or the query of a GraphQL body.\<close>

definition body_text :: "request_body \<Rightarrow> string" where
  "body_text b =
     (case content b of
        Some c \<Rightarrow> c
      | None \<Rightarrow> (case gql b of Some g \<Rightarrow> query g | None \<Rightarrow> []))"

section \<open>The generator: \<open>HttpGenerator\<close>\<close>

text \<open>
  \<open>encodeURIComponent\<close>: every byte other than a letter, a digit and \<open>- _ . ! ~ * ' ( )\<close>
  becomes \<open>%XX\<close> with upper-case hexadecimal digits.
\<close>

definition unreserved :: "char \<Rightarrow> bool" where
  "unreserved c =
     (let n = (of_char c :: nat) in
      (48 \<le> n \<and> n \<le> 57) \<or> (65 \<le> n \<and> n \<le> 90) \<or> (97 \<le> n \<and> n \<le> 122) \<or>
      c \<in> set [CHR ''-'', CHR ''_'', CHR ''.'', CHR ''!'', CHR ''~'', CHR ''*'', CHR 0x27, CHR ''('', CHR '')''])"

definition encode_char :: "char \<Rightarrow> string" where
  "encode_char c =
     (if unreserved c then [c]
      else [CHR ''%'', hex_digit ((of_char c :: nat) div 16), hex_digit ((of_char c :: nat) mod 16)])"

definition encodeURIComponent :: "string \<Rightarrow> string" where
  "encodeURIComponent s = concat (map encode_char s)"

definition buildUrl :: "string \<Rightarrow> query_param list \<Rightarrow> string" where
  "buildUrl baseUrl ps =
     (let enabledParams = filter (\<lambda>p. enabled p \<and> key p \<noteq> []) ps in
      if enabledParams = [] then baseUrl
      else baseUrl @ ''?'' @
           join ''&'' (map (\<lambda>p. encodeURIComponent (key p) @ ''='' @ encodeURIComponent (val p))
                          enabledParams))"

text \<open>
  \<open>generateBody\<close> returns \<open>undefined\<close> (\<open>None\<close>) or the body's text. The platform's
  \<open>JSON.parse\<close> and \<open>JSON.stringify\<close>, which render a GraphQL body, are the parameter
  \<open>stringify\<close>.
\<close>

definition generateBody :: "(graphql_body \<Rightarrow> string) \<Rightarrow> ui_request \<Rightarrow> string option" where
  "generateBody stringify r =
     (let b = body r; c = (case content b of Some t \<Rightarrow> t | None \<Rightarrow> []) in
      case btype b of
        none \<Rightarrow> None
      | json \<Rightarrow> Some c
      | raw \<Rightarrow> Some c
      | form \<Rightarrow> Some c
      | formdata \<Rightarrow>
          (case formData b of
             Some (f # fs) \<Rightarrow>
               Some (join [LF] (map (\<lambda>f. fkey f @ ''='' @ fval f) (filter fenabled (f # fs))))
           | _ \<Rightarrow> Some c)
      | graphql \<Rightarrow> (case gql b of Some g \<Rightarrow> Some (stringify g) | None \<Rightarrow> None)
      | binary \<Rightarrow> (if c \<noteq> [] then Some (''< '' @ c) else None))"

text \<open>The lines that \<open>generate\<close> pushes, section by section.\<close>

definition metaLines :: "ui_request \<Rightarrow> string list" where
  "metaLines r =
     (let ls = (if name r \<noteq> [] then [''# @name '' @ name r] else []) @
               (case description r of
                  Some d \<Rightarrow> (if d \<noteq> [] then [''# @description '' @ d] else [])
                | None \<Rightarrow> []) @
               (case tags r of
                  Some ts \<Rightarrow> (if ts \<noteq> [] then [''# @tag '' @ join '', '' ts] else [])
                | None \<Rightarrow> [])
      in if ls \<noteq> [] then ls @ [[]] else [])"

definition preRequestLines :: "ui_request \<Rightarrow> string list" where
  "preRequestLines r =
     (case preRequest r of
        Some p \<Rightarrow>
          (if trim p \<noteq> []
           then [''{{'', ''  // @pre''] @ map (\<lambda>l. ''  '' @ l) (split LF p) @ [''}}'', []]
           else [])
      | None \<Rightarrow> [])"

definition headerLines :: "ui_request \<Rightarrow> string list" where
  "headerLines r =
     map (\<lambda>h. key h @ '': '' @ val h) (filter (\<lambda>h. enabled h \<and> key h \<noteq> []) (headers r))"

definition bodyLinesOf :: "(graphql_body \<Rightarrow> string) \<Rightarrow> ui_request \<Rightarrow> string list" where
  "bodyLinesOf stringify r =
     (case generateBody stringify r of
        Some b \<Rightarrow> (if b \<noteq> [] then [[], b] else [])
      | None \<Rightarrow> [])"

definition testLines :: "ui_request \<Rightarrow> string list" where
  "testLines r =
     (case tests r of
        Some t \<Rightarrow>
          (if trim t \<noteq> []
           then [[], ''{{''] @ map (\<lambda>l. ''  '' @ l) (split LF t) @ [''}}'']
           else [])
      | None \<Rightarrow> [])"

definition generate :: "(graphql_body \<Rightarrow> string) \<Rightarrow> ui_request \<Rightarrow> string" where
  "generate stringify r =
     join [LF]
       (metaLines r @ preRequestLines r @
        [method_name (req_method r) @ '' '' @ buildUrl (url r) (queryParams r)] @
        headerLines r @ bodyLinesOf stringify r @ testLines r @ [[], ''###''])"

section \<open>The tree walker: \<open>CollectionParser.parseCollectionTree\<close>\<close>

subsection \<open>The file system and the nodes\<close>

text \<open>\<open>CollectionMetadata\<close> and \<open>CollectionsManifest\<close>, with the fields the walker reads.\<close>

record collection_metadata =
  meta_name :: string
  meta_description :: "string option"
  order :: "string list option"

record collections_manifest =
  version :: string
  collections :: "string list"

text \<open>
  What the walker sees of the disk. A file is its text, \<open>None\<close> when \<open>readFile\<close> fails.
  A directory is what \<open>loadCollectionMetadata\<close> returns for it (\<open>None\<close> when
  \<open>_collection.json\<close> is missing, unreadable or not JSON) and what \<open>readDirectory\<close> returns:
  the entries in enumeration order, \<open>None\<close> when the read fails. Any other entry (a symbolic
  link, an unknown type) is \<open>Other\<close>.
\<close>

datatype fs_entry =
  File "string option"
| Directory "collection_metadata option" "(string \<times> fs_entry) list option"
| Other

datatype item_type = collection | folder | request_item

datatype request_status = success | error | pending | no_status

datatype tree_node =
  Node (node_type: item_type) (node_id: string) (label: string)
       (node_description: "string option") (node_method: "http_method option")
       (filePath: string) (folderPath: string)
       (children: "tree_node list option") (lastRunStatus: "request_status option")

definition joinPath :: "string \<Rightarrow> string \<Rightarrow> string" where
  "joinPath dir entryName = dir @ ''/'' @ entryName"

text \<open>\<open>path.dirname\<close>, \<open>path.extname\<close> and \<open>path.basename(f, ext)\<close> on a plain path.\<close>

definition dirname :: "string \<Rightarrow> string" where
  "dirname p = rev (drop 1 (dropWhile (\<lambda>c. c \<noteq> CHR ''/'') (rev p)))"

definition extname :: "string \<Rightarrow> string" where
  "extname f =
     (if CHR ''.'' \<notin> set f then []
      else (let e = CHR ''.'' # rev (takeWhile (\<lambda>c. c \<noteq> CHR ''.'') (rev f))
            in if e = f then [] else e))"

definition basename :: "string \<Rightarrow> string \<Rightarrow> string" where
  "basename f ext =
     (if ext \<noteq> [] \<and> f \<noteq> ext \<and> endsWith f ext then take (length f - length ext) f else f)"

subsection \<open>The regular expressions of \<open>parseHttpFile\<close>\<close>

text \<open>
  The three expressions carry the flag \<open>m\<close>: \<open>^\<close> matches at the start of the text and after
  every line terminator, \<open>$\<close> at the end of the text and before every line terminator.
  \<open>first_match f True t\<close> tries \<open>f\<close> at every such start, from the left.
\<close>

fun first_match :: "(string \<Rightarrow> 'a option) \<Rightarrow> bool \<Rightarrow> string \<Rightarrow> 'a option" where
  "first_match f atStart [] = (if atStart then f [] else None)"
| "first_match f atStart (c # cs) =
     (case (if atStart then f (c # cs) else None) of
        Some r \<Rightarrow> Some r
      | None \<Rightarrow> first_match f (is_lt c) cs)"

text \<open>
  \<open>\s+(.+)$\<close> on the rest of the text, returning the group trimmed. The white space may run
  over line ends; the group stops at the next line terminator. When only white space is left,
  the group can take no more than white space given back by \<open>\s+\<close>.
\<close>

definition marker_tail :: "string \<Rightarrow> string option" where
  "marker_tail r =
     (let w = takeWhile is_ws r; u = dropWhile is_ws r in
      if w = [] then None
      else if u \<noteq> [] then Some (trim (takeWhile (\<lambda>c. \<not> is_lt c) u))
      else if list_ex (\<lambda>c. \<not> is_lt c) (drop 1 w) then Some []
      else None)"

text \<open>\<open>/^#\s*@name\s+(.+)$/m\<close> and \<open>/^#\s*@description\s+(.+)$/m\<close> at one line start.\<close>

definition marker_at :: "string \<Rightarrow> string \<Rightarrow> string option" where
  "marker_at word t =
     (case t of
        [] \<Rightarrow> None
      | c # t1 \<Rightarrow>
          (if c = CHR ''#'' then
             (let t2 = dropWhile is_ws t1 in
              if startsWith t2 word then marker_tail (drop (length word) t2) else None)
           else None))"

text \<open>\<open>/^\s*(GET|POST|PUT|DELETE|PATCH|HEAD|OPTIONS|CONNECT|TRACE)\s+/m\<close> at one line start.\<close>

definition method_at :: "string \<Rightarrow> http_method option" where
  "method_at t =
     (let t1 = dropWhile is_ws t in
      find (\<lambda>m. startsWith t1 (method_name m) \<and>
                 (case drop (length (method_name m)) t1 of [] \<Rightarrow> False | c # _ \<Rightarrow> is_ws c))
           all_methods)"

subsection \<open>\<open>parseHttpFile\<close> and \<open>parseFolder\<close>\<close>

text \<open>
  The functions return the messages they hand to \<open>httpyac.io.log.error\<close> together with
  their result. A location is the path of its \<open>vscode.Uri\<close>.
\<close>

definition parseHttpFile :: "string \<Rightarrow> string \<Rightarrow> fs_entry \<Rightarrow> string list \<times> tree_node option" where
  "parseHttpFile uri fileName e =
     (case (case e of File c \<Rightarrow> c | _ \<Rightarrow> None) of
        None \<Rightarrow> ([''Failed to parse HTTP file '' @ uri_toString (Uri uri)], None)
      | Some t \<Rightarrow>
          (let nameMatch = first_match (marker_at ''@name'') True t;
               descriptionMatch = first_match (marker_at ''@description'') True t;
               methodMatch = first_match method_at True t;
               nm = (case nameMatch of
                       Some n \<Rightarrow> (if n \<noteq> [] then n else basename fileName (extname fileName))
                     | None \<Rightarrow> basename fileName (extname fileName));
               m = (case methodMatch of Some x \<Rightarrow> x | None \<Rightarrow> GET)
           in ([], Some (Node request_item (uri_toString (Uri uri)) nm descriptionMatch (Some m)
                              uri (dirname uri) None (Some no_status)))))"

text \<open>
  \<open>Array.prototype.sort\<close> is stable. For a comparator that orders consistently every stable
  sort returns the same list; it is computed here by insertion.
\<close>

fun insert_by :: "('a \<Rightarrow> 'a \<Rightarrow> int) \<Rightarrow> 'a \<Rightarrow> 'a list \<Rightarrow> 'a list" where
  "insert_by cmp x [] = [x]"
| "insert_by cmp x (y # ys) = (if cmp x y \<le> 0 then x # y # ys else y # insert_by cmp x ys)"

definition js_sort :: "('a \<Rightarrow> 'a \<Rightarrow> int) \<Rightarrow> 'a list \<Rightarrow> 'a list" where
  "js_sort cmp xs = foldr (insert_by cmp) xs []"

fun indexOf :: "'a list \<Rightarrow> 'a \<Rightarrow> int" where
  "indexOf [] x = - 1"
| "indexOf (y # ys) x = (if x = y then 0 else (let i = indexOf ys x in if i = - 1 then - 1 else i + 1))"

text \<open>The comparator of both sorts, on the labels.\<close>

definition orderCompare :: "string list \<Rightarrow> tree_node \<Rightarrow> tree_node \<Rightarrow> int" where
  "orderCompare ord a b =
     (let indexA = indexOf ord (label a); indexB = indexOf ord (label b) in
      if indexA = - 1 \<and> indexB = - 1 then 0
      else if indexA = - 1 then 1
      else if indexB = - 1 then - 1
      else indexA - indexB)"

definition sortChildren :: "collection_metadata option \<Rightarrow> tree_node list \<Rightarrow> tree_node list" where
  "sortChildren metadata cs =
     (case metadata of
        Some md \<Rightarrow>
          (case order md of
             Some ord \<Rightarrow> (if ord \<noteq> [] then js_sort (orderCompare ord) cs else cs)
           | None \<Rightarrow> cs)
      | None \<Rightarrow> cs)"

definition isSubFolder :: "string \<times> fs_entry \<Rightarrow> bool" where
  "isSubFolder ne =
     (case snd ne of
        Directory md es \<Rightarrow> \<not> startsWith (fst ne) ''.'' \<and> \<not> startsWith (fst ne) ''_''
      | _ \<Rightarrow> False)"

definition isHttpEntry :: "string \<times> fs_entry \<Rightarrow> bool" where
  "isHttpEntry ne =
     (case snd ne of
        File c \<Rightarrow> endsWith (fst ne) ''.http'' \<or> endsWith (fst ne) ''.rest''
      | _ \<Rightarrow> False)"

text \<open>The second loop of \<open>parseFolder\<close>: the request files, in enumeration order.\<close>

fun parseFiles :: "string \<Rightarrow> (string \<times> fs_entry) list \<Rightarrow> string list \<times> tree_node list" where
  "parseFiles folderUri [] = ([], [])"
| "parseFiles folderUri (ne # es) =
     (if isHttpEntry ne then
        (let (lg, requestNode) = parseHttpFile (joinPath folderUri (fst ne)) (fst ne) (snd ne);
             (lgs, nodes) = parseFiles folderUri es
         in (lg @ lgs, (case requestNode of Some n \<Rightarrow> n # nodes | None \<Rightarrow> nodes)))
      else parseFiles folderUri es)"

text \<open>
  \<open>parseFolder\<close>, with its first loop (the sub-folders, in enumeration order) as
  \<open>parseSubFolders\<close>. A failed \<open>readDirectory\<close> is caught and logged; the node is returned
  all the same, with the children collected so far (none).
\<close>

fun parseFolder :: "string \<Rightarrow> string \<Rightarrow> fs_entry \<Rightarrow> string list \<times> tree_node"
  and parseSubFolders :: "string \<Rightarrow> (string \<times> fs_entry) list \<Rightarrow> string list \<times> tree_node list"
where
  "parseFolder folderUri nm (Directory metadata (Some entries)) =
     (let (lg1, subNodes) = parseSubFolders folderUri entries;
          (lg2, requestNodes) = parseFiles folderUri entries
      in (lg1 @ lg2,
          Node collection (uri_toString (Uri folderUri))
            (case metadata of Some md \<Rightarrow> (if meta_name md \<noteq> [] then meta_name md else nm) | None \<Rightarrow> nm)
            (case metadata of Some md \<Rightarrow> meta_description md | None \<Rightarrow> None)
            None folderUri folderUri
            (Some (sortChildren metadata (subNodes @ requestNodes))) None))"
| "parseFolder folderUri nm (Directory metadata None) =
     ([''Failed to parse folder '' @ uri_toString (Uri folderUri)],
      Node collection (uri_toString (Uri folderUri))
        (case metadata of Some md \<Rightarrow> (if meta_name md \<noteq> [] then meta_name md else nm) | None \<Rightarrow> nm)
        (case metadata of Some md \<Rightarrow> meta_description md | None \<Rightarrow> None)
        None folderUri folderUri (Some []) None)"
| "parseFolder folderUri nm (File c) =
     ([''Failed to parse folder '' @ uri_toString (Uri folderUri)],
      Node collection (uri_toString (Uri folderUri)) nm None None folderUri folderUri (Some []) None)"
| "parseFolder folderUri nm Other =
     ([''Failed to parse folder '' @ uri_toString (Uri folderUri)],
      Node collection (uri_toString (Uri folderUri)) nm None None folderUri folderUri (Some []) None)"
| "parseSubFolders folderUri [] = ([], [])"
| "parseSubFolders folderUri ((entryName, e) # es) =
     (if isSubFolder (entryName, e) then
        (let (lg, subNode) = parseFolder (joinPath folderUri entryName) entryName e;
             (lgs, nodes) = parseSubFolders folderUri es
         in (lg @ lgs, subNode # nodes))
      else parseSubFolders folderUri es)"

text \<open>The top level: the collections under the root, ordered by the manifest.\<close>

definition isCollectionFolder :: "string \<times> fs_entry \<Rightarrow> bool" where
  "isCollectionFolder ne =
     (case snd ne of
        Directory md es \<Rightarrow> \<not> startsWith (fst ne) ''.'' \<and> fst ne \<noteq> ''environments''
      | _ \<Rightarrow> False)"

fun parseCollections :: "string \<Rightarrow> (string \<times> fs_entry) list \<Rightarrow> string list \<times> tree_node list" where
  "parseCollections rootUri [] = ([], [])"
| "parseCollections rootUri (ne # es) =
     (if isCollectionFolder ne then
        (let (lg, n) = parseFolder (joinPath rootUri (fst ne)) (fst ne) (snd ne);
             (lgs, nodes) = parseCollections rootUri es
         in (lg @ lgs, n # nodes))
      else parseCollections rootUri es)"

definition parseCollectionTree ::
  "string \<Rightarrow> collections_manifest option \<Rightarrow> fs_entry \<Rightarrow> string list \<times> tree_node list" where
  "parseCollectionTree rootUri manifest root =
     (case (case root of Directory md es \<Rightarrow> es | _ \<Rightarrow> None) of
        None \<Rightarrow> ([''Failed to parse collection tree''], [])
      | Some entries \<Rightarrow>
          (let (lg, nodes) = parseCollections rootUri entries in
           (lg, (case manifest of
                   Some mf \<Rightarrow>
                     (if collections mf \<noteq> [] then js_sort (orderCompare (collections mf)) nodes
                      else nodes)
                 | None \<Rightarrow> nodes))))"

text \<open>A node and all the nodes below it.\<close>

fun all_nodes :: "tree_node \<Rightarrow> tree_node list" where
  "all_nodes (Node t i l d m fp dp cs st) =
     Node t i l d m fp dp cs st #
     (case cs of Some ns \<Rightarrow> concat (map all_nodes ns) | None \<Rightarrow> [])"

section \<open>The change coordinator: \<open>FileSyncService\<close>\<close>

text \<open>
  Time is counted in milliseconds. The service's state: the clock, the timers that
  \<open>setTimeout\<close> armed and that have neither fired nor been cleared (handle, due time,
  callback), the two tables \<open>writeDebounceTimers\<close> and \<open>pendingWrites\<close>, the files on disk,
  the paths where \<open>writeFile\<close> fails, the calls of \<open>writeFile\<close> (location and text) and the
  events fired. A write is complete at the instant it starts.
\<close>

datatype timer_action = DebouncedWrite ui_request string | ClearPending string

datatype sync_event =
  RequestChanged string ui_request
| CollectionsChanged
| EnvironmentsChanged

datatype sync_error = NoFileUri | InvalidUri | WriteFailed

record sync_state =
  clock :: nat
  debounceDelay :: nat
  nextHandle :: nat
  timers :: "(nat \<times> nat \<times> timer_action) list"
  writeDebounceTimers :: "string \<Rightarrow> nat option"
  pendingWrites :: "string set"
  files :: "string \<Rightarrow> string option"
  unwritable :: "string set"
  written :: "(string \<times> string) list"
  fired :: "sync_event list"

text \<open>\<open>setTimeout(callback, delay)\<close>: a delay below one millisecond is one millisecond.\<close>

definition setTimeout :: "timer_action \<Rightarrow> nat \<Rightarrow> sync_state \<Rightarrow> nat \<times> sync_state" where
  "setTimeout a delay s =
     (nextHandle s,
      s\<lparr>nextHandle := nextHandle s + 1,
        timers := timers s @ [(nextHandle s, clock s + max 1 delay, a)]\<rparr>)"

definition clearTimeout :: "nat \<Rightarrow> sync_state \<Rightarrow> sync_state" where
  "clearTimeout h s = s\<lparr>timers := filter (\<lambda>t. fst t \<noteq> h) (timers s)\<rparr>"

text \<open>
  \<open>ensureUri\<close>: a live \<open>vscode.Uri\<close> is returned as it is; a plain object is rebuilt from its
  \<open>fsPath\<close>, else its \<open>path\<close>, else from its string form when that starts with \<open>file://\<close>,
  by \<open>Uri.parse\<close>, which decodes the escapes of the path; the string form is taken to have
  no authority, query or fragment, as the URI string of a file location has none.
\<close>

definition truthy :: "string option \<Rightarrow> bool" where
  "truthy x = (case x of Some t \<Rightarrow> t \<noteq> [] | None \<Rightarrow> False)"

fun ensureUri :: "uri_like \<Rightarrow> sync_error + uri_like" where
  "ensureUri (Uri p) = Inr (Uri p)"
| "ensureUri (PlainObject f p t) =
     (if truthy f then Inr (Uri (case f of Some x \<Rightarrow> x | None \<Rightarrow> []))
      else if truthy p then Inr (Uri (case p of Some x \<Rightarrow> x | None \<Rightarrow> []))
      else if startsWith (uri_toString (PlainObject f p t)) ''file://''
      then Inr (Uri (percent_decode (drop 7 (uri_toString (PlainObject f p t)))))
      else Inl InvalidUri)"

text \<open>
  \<open>writeRequest\<close>, up to the completion of the write: the path is marked pending, the file
  written, and the timer that ends the mark armed for 100 ms later, also when the write fails.
\<close>

definition writeRequest ::
  "(graphql_body \<Rightarrow> string) \<Rightarrow> ui_request \<Rightarrow> sync_state \<Rightarrow> sync_error option \<times> sync_state" where
  "writeRequest stringify r s =
     (case fileUri r of
        None \<Rightarrow> (None, s)
      | Some u \<Rightarrow>
          (let text = generate stringify r in
           case ensureUri u of
             Inl e \<Rightarrow> (Some e, s)
           | Inr uri \<Rightarrow>
               (let uriString = uri_toString uri;
                    s1 = s\<lparr>pendingWrites := insert uriString (pendingWrites s)\<rparr>;
                    ok = (uri_fsPath uri \<notin> unwritable s1);
                    s2 = s1\<lparr>written := written s1 @ [(uriString, text)],
                            files := (if ok then (files s1)(uri_fsPath uri \<mapsto> text) else files s1)\<rparr>;
                    s3 = snd (setTimeout (ClearPending uriString) 100 s2)
                in (if ok then None else Some WriteFailed, s3))))"

text \<open>\<open>saveRequest(request, immediate)\<close>; \<open>Some e\<close> is the error it throws.\<close>

definition saveRequest ::
  "(graphql_body \<Rightarrow> string) \<Rightarrow> ui_request \<Rightarrow> bool \<Rightarrow> sync_state \<Rightarrow> sync_error option \<times> sync_state" where
  "saveRequest stringify r immediate s =
     (case fileUri r of
        None \<Rightarrow> (Some NoFileUri, s)
      | Some u \<Rightarrow>
          (case ensureUri u of
             Inl e \<Rightarrow> (Some e, s)
           | Inr uri \<Rightarrow>
               (let uriString = uri_toString uri;
                    r' = r\<lparr>fileUri := Some uri\<rparr>;
                    s1 = (case writeDebounceTimers s uriString of
                            Some existingTimer \<Rightarrow> clearTimeout existingTimer s
                          | None \<Rightarrow> s)
                in if immediate then writeRequest stringify r' s1
                   else (let (timer, s2) = setTimeout (DebouncedWrite r' uriString) (debounceDelay s1) s1
                         in (None, s2\<lparr>writeDebounceTimers := (writeDebounceTimers s2)(uriString \<mapsto> timer)\<rparr>)))))"

text \<open>The two timer callbacks.\<close>

fun fire :: "(graphql_body \<Rightarrow> string) \<Rightarrow> timer_action \<Rightarrow> sync_state \<Rightarrow> sync_state" where
  "fire stringify (DebouncedWrite r uriString) s =
     (let s1 = snd (writeRequest stringify r s)
      in s1\<lparr>writeDebounceTimers := (writeDebounceTimers s1)(uriString := None)\<rparr>)"
| "fire stringify (ClearPending uriString) s = s\<lparr>pendingWrites := pendingWrites s - {uriString}\<rparr>"

text \<open>One millisecond passes: the timers that are due fire, in the order they were armed.\<close>

definition tick :: "(graphql_body \<Rightarrow> string) \<Rightarrow> sync_state \<Rightarrow> sync_state" where
  "tick stringify s =
     (let t = clock s + 1;
          due = filter (\<lambda>x. fst (snd x) \<le> t) (timers s);
          s1 = s\<lparr>clock := t, timers := filter (\<lambda>x. \<not> fst (snd x) \<le> t) (timers s)\<rparr>
      in foldl (\<lambda>st x. fire stringify (snd (snd x)) st) s1 due)"

fun advance :: "(graphql_body \<Rightarrow> string) \<Rightarrow> nat \<Rightarrow> sync_state \<Rightarrow> sync_state" where
  "advance stringify 0 s = s"
| "advance stringify (Suc n) s = advance stringify n (tick stringify s)"

text \<open>The watcher's change notification, for an initialised service.\<close>

definition isHttpFile :: "uri_like \<Rightarrow> bool" where
  "isHttpFile uri = (endsWith (uri_fsPath uri) ''.http'' \<or> endsWith (uri_fsPath uri) ''.rest'')"

definition isEnvironmentFile :: "uri_like \<Rightarrow> bool" where
  "isEnvironmentFile uri =
     (str_includes (uri_fsPath uri) ''environments'' \<and> endsWith (uri_fsPath uri) ''.env'')"

definition onFileChanged :: "uri_like \<Rightarrow> sync_state \<Rightarrow> sync_state" where
  "onFileChanged uri s =
     (if uri_toString uri \<in> pendingWrites s then s
      else if isEnvironmentFile uri then s\<lparr>fired := fired s @ [EnvironmentsChanged]\<rparr>
      else if isHttpFile uri then
        (case files s (uri_fsPath uri) of
           Some t \<Rightarrow>
             s\<lparr>fired := fired s @
                  [RequestChanged (uri_toString uri) (parseHttpText (clock s) t (Some uri))]\<rparr>
         | None \<Rightarrow> s)
      else s\<lparr>fired := fired s @ [CollectionsChanged]\<rparr>)"

text \<open>Another process writes a file; the watcher's notification is delivered separately.\<close>

definition externalWrite :: "string \<Rightarrow> string \<Rightarrow> sync_state \<Rightarrow> sync_state" where
  "externalWrite p t s = s\<lparr>files := (files s)(p \<mapsto> t)\<rparr>"

definition newService :: "nat \<Rightarrow> sync_state" where
  "newService delay =
     \<lparr>clock = 0, debounceDelay = delay, nextHandle = 0, timers = [],
      writeDebounceTimers = (\<lambda>u. None), pendingWrites = {}, files = (\<lambda>p. None),
      unwritable = {}, written = [], fired = []\<rparr>"

text \<open>The texts written to one location, in the order of the writes.\<close>

definition writes_to :: "string \<Rightarrow> sync_state \<Rightarrow> string list" where
  "writes_to u s = map snd (filter (\<lambda>w. fst w = u) (written s))"

text \<open>The location that \<open>writeRequest\<close> writes a request to, if it writes.\<close>

definition write_target :: "ui_request \<Rightarrow> string option" where
  "write_target r =
     (case fileUri r of
        None \<Rightarrow> None
      | Some u \<Rightarrow> (case ensureUri u of Inl e \<Rightarrow> None | Inr uri \<Rightarrow> Some (uri_toString uri)))"

text \<open>A timer is a debounced write that concerns the location \<open>P\<close>.\<close>

definition related :: "string \<Rightarrow> nat \<times> nat \<times> timer_action \<Rightarrow> bool" where
  "related P x =
     (case snd (snd x) of
        DebouncedWrite r u \<Rightarrow> u = P \<or> write_target r = Some P
      | ClearPending u \<Rightarrow> False)"

text \<open>
  In every state the service reaches, a debounced write for \<open>P\<close> that is still pending is the
  one registered for \<open>P\<close> in \<open>writeDebounceTimers\<close>.
\<close>

definition registered :: "string \<Rightarrow> sync_state \<Rightarrow> bool" where
  "registered P s = list_all (\<lambda>x. related P x \<longrightarrow> writeDebounceTimers s P = Some (fst x)) (timers s)"

text \<open>No write to \<open>P\<close> is within its grace window: no timer is armed to end the mark of \<open>P\<close>.\<close>

definition unmarked :: "string \<Rightarrow> sync_state \<Rightarrow> bool" where
  "unmarked P s = list_all (\<lambda>x. snd (snd x) \<noteq> ClearPending P) (timers s)"

section \<open>Observations on a walk\<close>

text \<open>
  The same tree of files enumerated in another order: at every level the entries of a
  directory are the same, up to their order and to the order inside their sub-directories.
\<close>

inductive reordered :: "fs_entry \<Rightarrow> fs_entry \<Rightarrow> bool" where
  same: "reordered e e"
| dir: "list_all2 (\<lambda>a b. fst a = fst b \<and> reordered (snd a) (snd b)) es es1 \<Longrightarrow> mset es1 = mset es2 \<Longrightarrow>
        reordered (Directory md (Some es)) (Directory md (Some es2))"

text \<open>The locations of the nodes of a tree, each with the identifier of its node.\<close>

definition located_ids :: "tree_node \<Rightarrow> (string \<times> string) set" where
  "located_ids t = (\<lambda>n. (filePath n, node_id n)) ` set (all_nodes t)"

definition forest_ids :: "tree_node list \<Rightarrow> (string \<times> string) set" where
  "forest_ids ts = (\<Union>t\<in>set ts. located_ids t)"

text \<open>
  The locations in a tree of files at which a walk has a node, read off the tree alone: the
  folder that is walked, the sub-folders below it whose names start with neither \<open>.\<close> nor
  \<open>_\<close>, as far as the directories can be read, and the request files in them that can be
  read. At the top level the folders are those whose names do not start with \<open>.\<close> and are
  not \<open>environments\<close>.
\<close>

fun folder_locations :: "string \<Rightarrow> fs_entry \<Rightarrow> string list"
  and entries_locations :: "string \<Rightarrow> (string \<times> fs_entry) list \<Rightarrow> string list"
where
  "folder_locations loc (Directory md (Some es)) = loc # entries_locations loc es"
| "folder_locations loc (Directory md None) = [loc]"
| "folder_locations loc (File c) = [loc]"
| "folder_locations loc Other = [loc]"
| "entries_locations loc [] = []"
| "entries_locations loc ((n, e) # es) =
     (case e of
        Directory md sub \<Rightarrow>
          (if startsWith n ''.'' \<or> startsWith n ''_'' then []
           else folder_locations (joinPath loc n) e)
      | File c \<Rightarrow>
          (if (endsWith n ''.http'' \<or> endsWith n ''.rest'') \<and> c \<noteq> None then [joinPath loc n]
           else [])
      | Other \<Rightarrow> []) @
     entries_locations loc es"

definition tree_locations :: "string \<Rightarrow> fs_entry \<Rightarrow> string list" where
  "tree_locations root r =
     (case r of
        Directory md (Some es) \<Rightarrow>
          concat (map (\<lambda>ne. case snd ne of
                              Directory md sub \<Rightarrow>
                                (if startsWith (fst ne) ''.'' \<or> fst ne = ''environments'' then []
                                 else folder_locations (joinPath root (fst ne)) (snd ne))
                            | _ \<Rightarrow> [])
                      es)
      | _ \<Rightarrow> [])"

text \<open>The identifier that a location stands for: its URI string.\<close>

definition identified :: "string list \<Rightarrow> (string \<times> string) set" where
  "identified locs = (\<lambda>p. (p, uri_toString (Uri p))) ` set locs"

text \<open>What one directory entry contributes to the identifiers of its folder.\<close>

definition entry_ids :: "string \<Rightarrow> string \<times> fs_entry \<Rightarrow> (string \<times> string) set" where
  "entry_ids uri ne =
     (if isSubFolder ne then located_ids (snd (parseFolder (joinPath uri (fst ne)) (fst ne) (snd ne))) else {}) \<union>
     (if isHttpEntry ne
      then (case snd (parseHttpFile (joinPath uri (fst ne)) (fst ne) (snd ne)) of
              Some n \<Rightarrow> located_ids n | None \<Rightarrow> {})
      else {})"

text \<open>A timer that ends the mark of \<open>P\<close> in \<open>pendingWrites\<close>.\<close>

definition ends_mark :: "string \<Rightarrow> nat \<times> nat \<times> timer_action \<Rightarrow> bool" where
  "ends_mark P x = (snd (snd x) = ClearPending P)"

section \<open>The round trip: observations and admissible requests\<close>

text \<open>\<open>trimEnd\<close>, and the strings that \<open>trim\<close> leaves as they are.\<close>

definition trimEnd :: "string \<Rightarrow> string" where
  "trimEnd s = rev (dropWhile is_ws (rev s))"

definition trimmed :: "string \<Rightarrow> bool" where
  "trimmed s = (s = [] \<or> (\<not> is_ws (hd s) \<and> \<not> is_ws (last s)))"

text \<open>What is compared of a header or a query parameter.\<close>

definition kv :: "kv_entry \<Rightarrow> string \<times> string \<times> bool" where
  "kv h = (key h, val h, enabled h)"

text \<open>
  What the loop's later iterations depend on, besides the name, the description, the tags and
  the scripts: method, URL, headers, query parameters and the three flags and lists of the
  body and script modes.
\<close>

definition core ::
  "parse_state \<Rightarrow> http_method \<times> string \<times> (string \<times> string \<times> bool) list \<times> (string \<times> string \<times> bool) list \<times> bool \<times> string list \<times> bool" where
  "core s =
     (req_method (request s), url (request s), map kv (headers (request s)),
      map kv (queryParams (request s)), inBody s, bodyLines s, inScript s)"

text \<open>
  The requests for which the round trip is proved. The URL is not empty, has no white space
  at its ends, no line terminator and no \<open>?\<close>.
\<close>

definition url_ok :: "string \<Rightarrow> bool" where
  "url_ok u = (u \<noteq> [] \<and> trimmed u \<and> list_all (\<lambda>c. \<not> is_lt c \<and> c \<noteq> CHR ''?'') u)"

text \<open>
  A header is enabled; its key is not empty and has none of white space, \<open>:\<close>, \<open>#\<close>, \<open>/\<close>,
  \<open>{\<close> and \<open>}\<close>; its value has no white space at its ends and no line feed.
\<close>

definition key_char :: "char \<Rightarrow> bool" where
  "key_char c = (\<not> is_ws c \<and> c \<noteq> CHR '':'' \<and> c \<noteq> CHR ''#'' \<and> c \<noteq> CHR ''/'' \<and> c \<noteq> CHR ''{'' \<and> c \<noteq> CHR ''}'')"

definition header_ok :: "request_header \<Rightarrow> bool" where
  "header_ok h =
     (enabled h \<and> key h \<noteq> [] \<and> list_all key_char (key h) \<and> trimmed (val h) \<and> LF \<notin> set (val h))"

text \<open>A query parameter is enabled and its key is not empty.\<close>

definition param_ok :: "query_param \<Rightarrow> bool" where
  "param_ok p = (enabled p \<and> key p \<noteq> [])"

text \<open>No line of a script closes the script block.\<close>

definition script_ok :: "string option \<Rightarrow> bool" where
  "script_ok sc =
     (case sc of
        Some t \<Rightarrow> list_all (\<lambda>l. \<not> startsWith (trim l) ''}}'') (split LF t)
      | None \<Rightarrow> True)"

text \<open>
  A line of the body that the parser takes for nothing else: its trimmed form is not the
  separator, does not start with \<open>#\<close>, \<open>//\<close>, \<open>{{\<close> or \<open>}}\<close>, and is not a request line.
\<close>

definition plain_line :: "string \<Rightarrow> bool" where
  "plain_line l =
     (let t = trim l in
      t \<noteq> ''###'' \<and> \<not> startsWith t ''#'' \<and> \<not> startsWith t ''//'' \<and>
      \<not> startsWith t ''{{'' \<and> \<not> startsWith t ''}}'' \<and> matchRequestLine t = None)"

text \<open>The pair that \<open>buildUrl\<close> writes for a query parameter.\<close>

definition encoded_pair :: "query_param \<Rightarrow> string" where
  "encoded_pair p = encodeURIComponent (key p) @ ''='' @ encodeURIComponent (val p)"

definition generatedBody :: "(graphql_body \<Rightarrow> string) \<Rightarrow> ui_request \<Rightarrow> string" where
  "generatedBody stringify r = (case generateBody stringify r of Some b \<Rightarrow> b | None \<Rightarrow> [])"

definition admissible :: "(graphql_body \<Rightarrow> string) \<Rightarrow> ui_request \<Rightarrow> bool" where
  "admissible stringify r =
     (url_ok (url r) \<and>
      LF \<notin> set (name r) \<and>
      (case description r of Some d \<Rightarrow> LF \<notin> set d | None \<Rightarrow> True) \<and>
      (case tags r of Some ts \<Rightarrow> list_all (\<lambda>t. LF \<notin> set t) ts | None \<Rightarrow> True) \<and>
      script_ok (preRequest r) \<and> script_ok (tests r) \<and>
      list_all header_ok (headers r) \<and> list_all param_ok (queryParams r) \<and>
      list_all plain_line (split LF (generatedBody stringify r)))"

section \<open>Invariants of the parser's loop\<close>

text \<open>
  The loop never writes the request's body, and every line it collects for the body is a
  line of the input that is not comment-like.
\<close>

definition body_inv :: "parse_state \<Rightarrow> bool" where
  "body_inv s \<longleftrightarrow>
     content (body (request s)) = None \<and> gql (body (request s)) = None \<and>
     (\<forall>l\<in>set (bodyLines s). LF \<notin> set l \<and> \<not> startsWith (trim l) ''#'' \<and> \<not> startsWith (trim l) ''//'')"

text \<open>Until a request line is met, the method, the URL and the body keep their defaults.\<close>

definition no_request_inv :: "parse_state \<Rightarrow> bool" where
  "no_request_inv s \<longleftrightarrow>
     req_method (request s) = GET \<and> url (request s) = [] \<and> queryParams (request s) = [] \<and>
     btype (body (request s)) = none \<and> \<not> inBody s \<and> bodyLines s = []"

section \<open>Example inputs\<close>

text \<open>The inputs at which the theorems below are instantiated.\<close>

definition json_text :: string where
  "json_text = ''{\"a\":1}''"

definition graphql_text :: string where
  "graphql_text = ''query { x }''"

definition plain_text :: string where
  "plain_text = ''hello''"

definition form_text :: string where
  "form_text = ''a=1''"

definition no_headers :: "request_header list" where
  "no_headers = []"

definition form_header :: "request_header list" where
  "form_header =
     [\<lparr>key = ''Content-Type'', val = ''application/x-www-form-urlencoded'', enabled = True,
       kv_description = None\<rparr>]"

definition in_body_state :: parse_state where
  "in_body_state = (initialState 0 None)\<lparr>inBody := True\<rparr>"

definition commented_text :: string where
  "commented_text = ''POST http://a'' @ [LF] @ [LF] @ ''# c'' @ [LF] @ ''x''"

definition comment_line :: string where
  "comment_line = ''# note''"

definition no_request_text :: string where
  "no_request_text = ''# @name x'' @ [LF] @ ''Accept: a/b'' @ [LF] @ [LF] @ ''hello''"

definition plain_x :: string where
  "plain_x = ''x''"



definition c_uri :: string where
  "c_uri = ''/r/C''"

definition abc_entries :: "(string \<times> fs_entry) list" where
  "abc_entries =
     [(''a.http'', File (Some ''GET http://a'')),
      (''b.http'', File (Some ''GET http://b'')),
      (''c.http'', File (Some ''GET http://c''))]"

definition cab_entries :: "(string \<times> fs_entry) list" where
  "cab_entries =
     [(''c.http'', File (Some ''GET http://c'')),
      (''a.http'', File (Some ''GET http://a'')),
      (''b.http'', File (Some ''GET http://b''))]"

definition broken_root :: fs_entry where
  "broken_root =
     Directory None
       (Some [(''broken'', Directory None None),
              (''ok'', Directory None (Some [(''x.http'', File None)]))])"

definition ok_entries :: "(string \<times> fs_entry) list" where
  "ok_entries = [(''p'', Directory None (Some []))]"

definition no_gql :: "graphql_body \<Rightarrow> string" where
  "no_gql g = []"

definition saved_path :: string where
  "saved_path = ''/r/C/a.http''"

definition saved_location :: string where
  "saved_location = ''file:///r/C/a.http''"

definition first_request :: ui_request where
  "first_request =
     \<lparr>req_id = ''file:///r/C/a.http'', name = ''A'', description = None, req_method = GET,
      url = ''http://a/1'', headers = [], queryParams = [],
      body = \<lparr>btype = none, content = None, formData = None, gql = None\<rparr>,
      tests = None, preRequest = None, tags = None, fileUri = Some (Uri saved_path),
      collectionPath = None\<rparr>"

definition second_request :: ui_request where
  "second_request = first_request\<lparr>url := ''http://a/2''\<rparr>"

definition changed_text :: string where
  "changed_text = ''GET http://changed''"

definition login_request :: ui_request where
  "login_request =
     \<lparr>req_id = ''r1'', name = ''Login'', description = Some ''Signs in'', req_method = POST,
      url = ''https://api.example.com/login'',
      headers = [\<lparr>key = ''Content-Type'', val = ''application/json'', enabled = True,
                  kv_description = None\<rparr>],
      queryParams = [\<lparr>key = ''next'', val = ''/home page'', enabled = True,
                      kv_description = None\<rparr>],
      body = \<lparr>btype = json, content = Some ''[1, 2]'', formData = None, gql = None\<rparr>,
      tests = Some ''check(1);'', preRequest = Some ''prepare();'', tags = Some [''auth''],
      fileUri = None, collectionPath = None\<rparr>"

definition heading_request :: ui_request where
  "heading_request =
     \<lparr>req_id = ''r2'', name = ''Note'', description = None, req_method = POST,
      url = ''http://a'', headers = [], queryParams = [],
      body = \<lparr>btype = raw, content = Some ''# heading'', formData = None, gql = None\<rparr>,
      tests = None, preRequest = None, tags = None, fileUri = None, collectionPath = None\<rparr>"

definition graphql_header :: "request_header list" where
  "graphql_header =
     [\<lparr>key = ''Content-Type'', val = ''application/graphql'', enabled = True,
       kv_description = None\<rparr>]"

definition hero_text :: string where
  "hero_text = ''{ hero { name } }''"

definition jquery_text :: string where
  "jquery_text = ''jquery rocks''"

definition nested_entries :: "(string \<times> fs_entry) list" where
  "nested_entries =
     [(''a.http'', File (Some ''GET http://a'')),
      (''My Sub'', Directory None (Some [(''b c.http'', File (Some ''GET http://b''))]))]"

definition nested_swapped :: "(string \<times> fs_entry) list" where
  "nested_swapped =
     [(''My Sub'', Directory None (Some [(''b c.http'', File (Some ''GET http://b''))])),
      (''a.http'', File (Some ''GET http://a''))]"

section \<open>Facts about the string functions\<close>

lemma split_not_Nil [simp]: "split c s \<noteq> []"
  by (induction s) (auto split: list.splits)

lemma split_no_sep: "c \<notin> set s \<Longrightarrow> split c s = [s]"
  by (induction s) auto

lemma split_append_sep: "split c (a @ c # b) = split c a @ split c b"
  by (induction a) (auto split: list.splits)

lemma split_join:
  "ls \<noteq> [] \<Longrightarrow> \<forall>l\<in>set ls. c \<notin> set l \<Longrightarrow> split c (join [c] ls) = ls"
proof (induction "[c]" ls rule: join.induct)
  case 1
  then show ?case by simp
next
  case (2 l)
  then show ?case by (simp add: split_no_sep)
next
  case (3 l v va)
  then show ?case by (simp add: split_append_sep split_no_sep)
qed

lemma split_pieces_no_sep: "l \<in> set (split c s) \<Longrightarrow> c \<notin> set l"
  by (induction s arbitrary: l) (auto split: if_splits list.splits)

lemma split_snoc:
  "split c (s @ [x]) =
     (if x = c then split c s @ [[]] else butlast (split c s) @ [last (split c s) @ [x]])"
  by (induction s) (auto split: list.splits)

lemma split_rev: "split c (rev s) = rev (map rev (split c s))"
proof (induction s)
  case Nil
  then show ?case by simp
next
  case (Cons x s)
  obtain l ls where s: "split c s = l # ls" by (cases "split c s") auto
  show ?case
  proof (cases "x = c")
    case True
    then show ?thesis using Cons by (simp add: split_snoc)
  next
    case False
    have "rev (map rev (split c s)) \<noteq> []" by simp
    then show ?thesis using Cons False s
      by (simp add: split_snoc butlast_append last_append)
  qed
qed

lemma rdrop_Cons:
  "rev (dropWhile P (rev (c # t))) =
     (if P c \<and> (\<forall>x\<in>set t. P x) then [] else c # rev (dropWhile P (rev t)))"
  by (auto simp: dropWhile_append)

lemma drop_both_commute:
  "dropWhile P (rev (dropWhile P (rev s))) = rev (dropWhile P (rev (dropWhile P s)))"
proof (induction s)
  case Nil
  then show ?case by simp
next
  case (Cons c t)
  show ?case
  proof (cases "P c")
    case True
    then show ?thesis using Cons by (simp only: rdrop_Cons) (auto dest: set_dropWhileD)
  next
    case False
    have "rev (dropWhile P (rev (dropWhile P (c # t)))) = rev (dropWhile P (rev (c # t)))"
      using False by simp
    also have "\<dots> = c # rev (dropWhile P (rev t))"
      using False by (simp only: rdrop_Cons) simp
    finally have R: "rev (dropWhile P (rev (dropWhile P (c # t)))) = c # rev (dropWhile P (rev t))" .
    have L: "dropWhile P (rev (dropWhile P (rev (c # t)))) = c # rev (dropWhile P (rev t))"
      using False by (simp only: rdrop_Cons) simp
    show ?thesis by (simp only: L R)
  qed
qed

lemma trim_Nil [simp]: "trim [] = []"
  by (simp add: trim_def)

lemma trim_ws_Cons: "is_ws c \<Longrightarrow> trim (c # s) = trim s"
  by (simp add: trim_def)

lemma trim_rev: "trim (rev s) = rev (trim s)"
  by (simp add: trim_def drop_both_commute)

lemma lines_dropWhile_ws:
  "l' \<in> set (split LF (dropWhile is_ws s)) \<Longrightarrow> \<exists>l\<in>set (split LF s). trim l' = trim l"
proof (induction s arbitrary: l')
  case Nil
  then show ?case by simp
next
  case (Cons c s)
  show ?case
  proof (cases "is_ws c")
    case False
    then show ?thesis using Cons.prems by auto
  next
    case True
    from Cons.prems True have "l' \<in> set (split LF (dropWhile is_ws s))" by simp
    then obtain l where l: "l \<in> set (split LF s)" "trim l' = trim l" using Cons.IH by blast
    show ?thesis
    proof (cases "c = LF")
      case True
      then show ?thesis using l by auto
    next
      case False
      obtain l0 ls where s: "split LF s = l0 # ls" by (cases "split LF s") auto
      with False have "split LF (c # s) = (c # l0) # ls" by simp
      moreover have "trim (c # l0) = trim l0" using True by (rule trim_ws_Cons)
      ultimately show ?thesis using l s by auto
    qed
  qed
qed

lemma lines_trim:
  assumes "l' \<in> set (split LF (trim s))"
  shows "\<exists>l\<in>set (split LF s). trim l' = trim l"
proof -
  from assms have "l' \<in> set (map rev (split LF (dropWhile is_ws (rev (dropWhile is_ws s)))))"
    by (simp add: trim_def split_rev)
  then obtain l1 where l1: "l1 \<in> set (split LF (dropWhile is_ws (rev (dropWhile is_ws s))))" "l' = rev l1"
    by auto
  from lines_dropWhile_ws [OF l1(1)] obtain l2
    where l2: "l2 \<in> set (split LF (rev (dropWhile is_ws s)))" "trim l1 = trim l2" by blast
  from l2(1) obtain l3 where l3: "l3 \<in> set (split LF (dropWhile is_ws s))" "l2 = rev l3"
    by (auto simp: split_rev)
  from lines_dropWhile_ws [OF l3(1)] obtain l4
    where l4: "l4 \<in> set (split LF s)" "trim l3 = trim l4" by blast
  have "trim l' = rev (trim l1)" using l1(2) by (simp add: trim_rev)
  also have "\<dots> = rev (trim (rev l3))" using l2(2) l3(2) by simp
  also have "\<dots> = trim l4" using l4(2) by (simp add: trim_rev)
  finally show ?thesis using l4(1) by blast
qed

lemma comment_not_script:
  "startsWith t ''#'' \<or> startsWith t ''//'' \<Longrightarrow> \<not> startsWith t ''{{'' \<and> \<not> startsWith t ''}}''"
  by (cases t) (auto simp: startsWith_def)

section \<open>detectBodyType\<close>

lemma str_includes_Nil [simp]: "str_includes [] p = (p = [])"
  by simp

lemma no_header_contentType:
  "find (\<lambda>h. toLowerCase (key h) = ''content-type'') hs = None \<Longrightarrow> declaredContentType hs = []"
  by (simp add: declaredContentType_def)

text \<open>
  Claim C4, as the code has it. The clauses of the classification are tried in order and the
  first that applies decides. A text whose trimmed form starts with \<open>{\<close> or \<open>[\<close> is \<open>json\<close>
  whatever type is declared, and so is every text under a declared JSON type. Otherwise a
  declared form-encoded type gives \<open>form\<close>; else a declared multipart type gives \<open>formdata\<close>;
  else a declared GraphQL type, or a text in which the characters \<open>query\<close> or \<open>mutation\<close>
  occur anywhere, gives \<open>graphql\<close>; every remaining text is \<open>raw\<close>. Without a
  \<open>Content-Type\<close> header nothing is declared: the text is \<open>json\<close>, \<open>graphql\<close> or \<open>raw\<close>.
\<close>

theorem detectBodyType_classification:
  "(find (\<lambda>h. toLowerCase (key h) = ''content-type'') hs = None \<longrightarrow>
      (startsWith (trim b) ''{'' \<or> startsWith (trim b) ''['' \<longrightarrow>
         btype (detectBodyType b hs) = json \<and> content (detectBodyType b hs) = Some b) \<and>
      (\<not> startsWith (trim b) ''{'' \<and> \<not> startsWith (trim b) ''['' \<and>
       (str_includes b ''query'' \<or> str_includes b ''mutation'') \<longrightarrow>
         btype (detectBodyType b hs) = graphql \<and>
         gql (detectBodyType b hs) = Some \<lparr>query = b, variables = None\<rparr>) \<and>
      (\<not> startsWith (trim b) ''{'' \<and> \<not> startsWith (trim b) ''['' \<and>
       \<not> str_includes b ''query'' \<and> \<not> str_includes b ''mutation'' \<longrightarrow>
         btype (detectBodyType b hs) = raw \<and> content (detectBodyType b hs) = Some b)) \<and>
   (str_includes (declaredContentType hs) ''application/json'' \<or>
    startsWith (trim b) ''{'' \<or> startsWith (trim b) ''['' \<longrightarrow>
      btype (detectBodyType b hs) = json \<and> content (detectBodyType b hs) = Some b) \<and>
   (\<not> str_includes (declaredContentType hs) ''application/json'' \<and>
    \<not> startsWith (trim b) ''{'' \<and> \<not> startsWith (trim b) ''['' \<longrightarrow>
      (str_includes (declaredContentType hs) ''application/x-www-form-urlencoded'' \<longrightarrow>
         btype (detectBodyType b hs) = form \<and> content (detectBodyType b hs) = Some b) \<and>
      (\<not> str_includes (declaredContentType hs) ''application/x-www-form-urlencoded'' \<and>
       str_includes (declaredContentType hs) ''multipart/form-data'' \<longrightarrow>
         btype (detectBodyType b hs) = formdata \<and> content (detectBodyType b hs) = Some b) \<and>
      (\<not> str_includes (declaredContentType hs) ''application/x-www-form-urlencoded'' \<and>
       \<not> str_includes (declaredContentType hs) ''multipart/form-data'' \<and>
       (str_includes (declaredContentType hs) ''application/graphql'' \<or>
        str_includes b ''query'' \<or> str_includes b ''mutation'') \<longrightarrow>
         btype (detectBodyType b hs) = graphql \<and>
         gql (detectBodyType b hs) = Some \<lparr>query = b, variables = None\<rparr>) \<and>
      (\<not> str_includes (declaredContentType hs) ''application/x-www-form-urlencoded'' \<and>
       \<not> str_includes (declaredContentType hs) ''multipart/form-data'' \<and>
       \<not> str_includes (declaredContentType hs) ''application/graphql'' \<and>
       \<not> str_includes b ''query'' \<and> \<not> str_includes b ''mutation'' \<longrightarrow>
         btype (detectBodyType b hs) = raw \<and> content (detectBodyType b hs) = Some b))"
  by (simp add: detectBodyType_def no_header_contentType)

lemma detect_example_facts:
  "find (\<lambda>h. toLowerCase (key h) = ''content-type'') no_headers = None"
  "startsWith (trim json_text) ''{''"
  "\<not> startsWith (trim graphql_text) ''{''"
  "\<not> startsWith (trim graphql_text) ''[''"
  "str_includes graphql_text ''query''"
  "\<not> startsWith (trim plain_text) ''{''"
  "\<not> startsWith (trim plain_text) ''[''"
  "\<not> str_includes plain_text ''query''"
  "\<not> str_includes plain_text ''mutation''"
  "\<not> str_includes (declaredContentType form_header) ''application/json''"
  "str_includes (declaredContentType form_header) ''application/x-www-form-urlencoded''"
  "\<not> startsWith (trim form_text) ''{''"
  "\<not> startsWith (trim form_text) ''[''"
  "\<not> str_includes (declaredContentType graphql_header) ''application/json''"
  "\<not> str_includes (declaredContentType graphql_header) ''application/x-www-form-urlencoded''"
  "\<not> str_includes (declaredContentType graphql_header) ''multipart/form-data''"
  "str_includes (declaredContentType graphql_header) ''application/graphql''"
  "startsWith (trim hero_text) ''{''"
  by code_simp+

theorem detectBodyType_classification_witness:
  "(find (\<lambda>h. toLowerCase (key h) = ''content-type'') no_headers = None \<and>
    startsWith (trim json_text) ''{'' \<and>
    btype (detectBodyType json_text no_headers) = json) \<and>
   (\<not> startsWith (trim graphql_text) ''{'' \<and> \<not> startsWith (trim graphql_text) ''['' \<and>
    str_includes graphql_text ''query'' \<and>
    btype (detectBodyType graphql_text no_headers) = graphql) \<and>
   (\<not> startsWith (trim plain_text) ''{'' \<and> \<not> startsWith (trim plain_text) ''['' \<and>
    \<not> str_includes plain_text ''query'' \<and> \<not> str_includes plain_text ''mutation'' \<and>
    btype (detectBodyType plain_text no_headers) = raw) \<and>
   (\<not> str_includes (declaredContentType form_header) ''application/json'' \<and>
    \<not> startsWith (trim form_text) ''{'' \<and> \<not> startsWith (trim form_text) ''['' \<and>
    str_includes (declaredContentType form_header) ''application/x-www-form-urlencoded'' \<and>
    btype (detectBodyType form_text form_header) = form) \<and>
   (\<not> str_includes (declaredContentType graphql_header) ''application/json'' \<and>
    \<not> str_includes (declaredContentType graphql_header) ''application/x-www-form-urlencoded'' \<and>
    \<not> str_includes (declaredContentType graphql_header) ''multipart/form-data'' \<and>
    str_includes (declaredContentType graphql_header) ''application/graphql'' \<and>
    btype (detectBodyType plain_text graphql_header) = graphql \<and>
    startsWith (trim hero_text) ''{'' \<and>
    btype (detectBodyType hero_text graphql_header) = json)"
  using detectBodyType_classification [of no_headers json_text]
    detectBodyType_classification [of no_headers graphql_text]
    detectBodyType_classification [of no_headers plain_text]
    detectBodyType_classification [of form_header form_text]
    detectBodyType_classification [of graphql_header plain_text]
    detectBodyType_classification [of graphql_header hero_text]
    detect_example_facts
  by simp

lemma misread_example_facts:
  "\<not> startsWith (trim jquery_text) ''{''"
  "\<not> startsWith (trim jquery_text) ''[''"
  "split (CHR '' '') jquery_text = [''jquery'', ''rocks'']"
  "btype (detectBodyType hero_text graphql_header) = json"
  "btype (detectBodyType jquery_text no_headers) = graphql"
  by code_simp+

text \<open>
  Claim C4 as stated fails. Under a declared GraphQL type the text \<open>{ hero { name } }\<close> is
  classified \<open>json\<close>, not \<open>graphql\<close>: the test of the first character comes before the
  declared types other than JSON. And without a declared type the text \<open>jquery rocks\<close>, of
  which neither word is \<open>query\<close> or \<open>mutation\<close>, is classified \<open>graphql\<close>, not \<open>raw\<close>: the
  code looks for the characters anywhere in the text.
\<close>

theorem declared_graphql_read_as_json:
  "str_includes (declaredContentType graphql_header) ''application/graphql'' \<and>
   btype (detectBodyType hero_text graphql_header) = json \<and>
   find (\<lambda>h. toLowerCase (key h) = ''content-type'') no_headers = None \<and>
   \<not> startsWith (trim jquery_text) ''{'' \<and> \<not> startsWith (trim jquery_text) ''['' \<and>
   split (CHR '' '') jquery_text = [''jquery'', ''rocks''] \<and>
   btype (detectBodyType jquery_text no_headers) = graphql"
  using detect_example_facts misread_example_facts by simp

section \<open>The loop of \<open>parseHttpText\<close>\<close>

lemma parseLine_comment:
  assumes "\<not> inScript s"
    and "startsWith (trim l) ''#'' \<or> startsWith (trim l) ''//''"
    and "\<not> startsWith (trim l) ''# @name ''"
    and "\<not> startsWith (trim l) ''# @description ''"
    and "\<not> startsWith (trim l) ''# @tag ''"
  shows "parseLine s l = s"
  using assms comment_not_script [of "trim l"]
  by (simp add: parseLine_def Let_def)

lemma setRequestLine_body [simp]: "body (setRequestLine r m g) = body r"
  by (simp add: setRequestLine_def Let_def)

lemma body_inv_parseLine:
  "LF \<notin> set l \<Longrightarrow> body_inv s \<Longrightarrow> body_inv (parseLine s l)"
  by (auto simp: body_inv_def parseLine_def Let_def split: option.splits script_type.splits)

lemma body_inv_foldl:
  "\<forall>l\<in>set ls. LF \<notin> set l \<Longrightarrow> body_inv s \<Longrightarrow> body_inv (foldl parseLine s ls)"
  by (induction ls arbitrary: s) (auto simp: body_inv_parseLine)

lemma body_inv_initial: "body_inv (initialState now uri)"
  by (simp add: body_inv_def initialState_def initialRequest_def)

lemma body_text_detect [simp]: "body_text (detectBodyType b hs) = b"
  by (simp add: detectBodyType_def body_text_def Let_def)

lemma body_text_processBody:
  "body_inv s \<Longrightarrow>
   body_text (body (processBody s)) = (if bodyLines s = [] then [] else trim (join [LF] (bodyLines s)))"
proof (cases "bodyLines s \<noteq> [] \<and> trim (join [LF] (bodyLines s)) \<noteq> []")
  case True
  then show ?thesis by (simp add: processBody_def Let_def)
next
  case False
  assume "body_inv s"
  with False show ?thesis by (auto simp: processBody_def Let_def body_inv_def body_text_def)
qed

lemma parsed_body_lines:
  assumes "b \<in> set (split LF (body_text (body (parseHttpText now text uri))))"
  shows "\<not> startsWith (trim b) ''#'' \<and> \<not> startsWith (trim b) ''//''"
proof -
  let ?s = "foldl parseLine (initialState now uri) (split LF text)"
  have inv: "body_inv ?s"
    by (rule body_inv_foldl) (auto dest: split_pieces_no_sep simp: body_inv_initial)
  show ?thesis
  proof (cases "bodyLines ?s = []")
    case True
    with inv assms have "b = []"
      by (simp add: parseHttpText_def body_text_processBody)
    then show ?thesis by (simp add: startsWith_def)
  next
    case False
    with inv assms have "b \<in> set (split LF (trim (join [LF] (bodyLines ?s))))"
      by (simp add: parseHttpText_def body_text_processBody)
    from lines_trim [OF this] obtain l
      where l: "l \<in> set (split LF (join [LF] (bodyLines ?s)))" "trim b = trim l" by blast
    have "split LF (join [LF] (bodyLines ?s)) = bodyLines ?s"
      using False inv by (intro split_join) (auto simp: body_inv_def)
    with l inv show ?thesis by (auto simp: body_inv_def)
  qed
qed

text \<open>
  Claim C10. Outside a script block, a line whose trimmed form starts with \<open>#\<close> or \<open>//\<close>
  and that is not one of the three metadata markers leaves the parser's state as it is, also
  when the body is being collected; so no line of the parsed body's text is comment-like.
\<close>

theorem comment_lines_discarded:
  "(\<not> inScript s \<and> (startsWith (trim l) ''#'' \<or> startsWith (trim l) ''//'') \<and>
    \<not> startsWith (trim l) ''# @name '' \<and> \<not> startsWith (trim l) ''# @description '' \<and>
    \<not> startsWith (trim l) ''# @tag '' \<longrightarrow> parseLine s l = s) \<and>
   (\<forall>b\<in>set (split LF (body_text (body (parseHttpText now text uri)))).
      \<not> startsWith (trim b) ''#'' \<and> \<not> startsWith (trim b) ''//'')"
  using parseLine_comment [of s l] parsed_body_lines by blast

lemma comment_example_facts:
  "\<not> inScript in_body_state"
  "inBody in_body_state"
  "startsWith (trim comment_line) ''#''"
  "\<not> startsWith (trim comment_line) ''# @name ''"
  "\<not> startsWith (trim comment_line) ''# @description ''"
  "\<not> startsWith (trim comment_line) ''# @tag ''"
  "split LF (body_text (body (parseHttpText 0 commented_text None))) = [plain_x]"
  by code_simp+

theorem comment_lines_discarded_witness:
  "\<not> inScript in_body_state \<and> inBody in_body_state \<and> startsWith (trim comment_line) ''#'' \<and>
   parseLine in_body_state comment_line = in_body_state \<and>
   plain_x \<in> set (split LF (body_text (body (parseHttpText 0 commented_text None)))) \<and>
   \<not> startsWith (trim plain_x) ''#'' \<and> \<not> startsWith (trim plain_x) ''//''"
  using comment_lines_discarded [of in_body_state comment_line 0 commented_text None]
    comment_example_facts
  by simp

lemma no_request_inv_parseLine:
  "matchRequestLine (trim l) = None \<Longrightarrow> no_request_inv s \<Longrightarrow> no_request_inv (parseLine s l)"
  by (auto simp: no_request_inv_def parseLine_def Let_def split: option.splits script_type.splits)

lemma no_request_inv_foldl:
  "\<forall>l\<in>set ls. matchRequestLine (trim l) = None \<Longrightarrow> no_request_inv s \<Longrightarrow>
   no_request_inv (foldl parseLine s ls)"
  by (induction ls arbitrary: s) (auto simp: no_request_inv_parseLine)

lemma no_request_inv_initial: "no_request_inv (initialState now uri)"
  by (simp add: no_request_inv_def initialState_def initialRequest_def)

lemma no_request_inv_processBody:
  "no_request_inv s \<Longrightarrow>
   req_method (processBody s) = GET \<and> url (processBody s) = [] \<and> queryParams (processBody s) = [] \<and>
   btype (body (processBody s)) = none"
  by (simp add: no_request_inv_def processBody_def)

lemma parse_empty:
  "name (parseHttpText now [] uri) = ''New Request'' \<and>
   req_method (parseHttpText now [] uri) = GET \<and>
   url (parseHttpText now [] uri) = [] \<and>
   headers (parseHttpText now [] uri) = [] \<and>
   queryParams (parseHttpText now [] uri) = [] \<and>
   btype (body (parseHttpText now [] uri)) = none"
  by code_simp

text \<open>
  Claim C5. \<open>parseHttpText\<close> has no failing branch: it returns a request for every text.
  The empty text gives the name \<open>New Request\<close>, the method GET, the empty URL, no header, no
  query parameter and the body \<open>none\<close>; and a text none of whose lines is a request line
  keeps the method GET, the empty URL, no query parameter and the body \<open>none\<close>.
\<close>

theorem parseHttpText_defaults:
  "name (parseHttpText now [] uri) = ''New Request'' \<and>
   req_method (parseHttpText now [] uri) = GET \<and>
   url (parseHttpText now [] uri) = [] \<and>
   headers (parseHttpText now [] uri) = [] \<and>
   queryParams (parseHttpText now [] uri) = [] \<and>
   btype (body (parseHttpText now [] uri)) = none \<and>
   ((\<forall>l\<in>set (split LF text). matchRequestLine (trim l) = None) \<longrightarrow>
      req_method (parseHttpText now text uri) = GET \<and>
      url (parseHttpText now text uri) = [] \<and>
      queryParams (parseHttpText now text uri) = [] \<and>
      btype (body (parseHttpText now text uri)) = none)"
  using parse_empty [of now uri]
    no_request_inv_processBody [OF no_request_inv_foldl [OF _ no_request_inv_initial], of "split LF text" now uri]
  by (simp add: parseHttpText_def)

lemma no_request_line_example:
  "list_all (\<lambda>l. matchRequestLine (trim l) = None) (split LF no_request_text)"
  by code_simp

theorem parseHttpText_defaults_witness:
  "list_all (\<lambda>l. matchRequestLine (trim l) = None) (split LF no_request_text) \<and>
   req_method (parseHttpText 0 no_request_text None) = GET \<and>
   url (parseHttpText 0 no_request_text None) = [] \<and>
   queryParams (parseHttpText 0 no_request_text None) = [] \<and>
   btype (body (parseHttpText 0 no_request_text None)) = none"
  using parseHttpText_defaults [of 0 None no_request_text] no_request_line_example
  by (simp add: list_all_iff)

text \<open>
  Claim C8, on the code. The URL is cut at every \<open>?\<close> and only the first two pieces are used:
  for \<open>GET http://h/p?a=1?b=2\<close> the query string is \<open>a=1\<close>, not the whole rest \<open>a=1?b=2\<close>.
  And every line that has the form of a request line sets the method and the URL again, also
  a line of the body: the last such line decides, not the first.
\<close>

theorem request_line_second_question_mark:
  "url (parseHttpText now ''GET http://h/p?a=1?b=2'' uri) = ''http://h/p'' \<and>
   map (\<lambda>p. (key p, val p)) (queryParams (parseHttpText now ''GET http://h/p?a=1?b=2'' uri)) = [(''a'', ''1'')] \<and>
   req_method (parseHttpText now (''GET http://a'' @ [LF] @ [LF] @ ''POST http://b'') uri) = POST \<and>
   url (parseHttpText now (''GET http://a'' @ [LF] @ [LF] @ ''POST http://b'') uri) = ''http://b''"
  by code_simp


section \<open>The order of the children\<close>

lemma indexOf_ge: "- 1 \<le> indexOf xs x"
  by (induction xs) (auto simp: Let_def)

lemma indexOf_unlisted: "indexOf xs x = - 1 \<longleftrightarrow> x \<notin> set xs"
proof (induction xs)
  case Nil
  then show ?case by simp
next
  case (Cons y ys)
  have "- 1 \<le> indexOf ys x" by (rule indexOf_ge)
  then show ?case using Cons by (auto simp: Let_def)
qed

lemma insert_by_unlisted:
  assumes "label x \<notin> set ord" and "\<forall>y\<in>set L. label y \<in> set ord"
    and "\<forall>y\<in>set U. label y \<notin> set ord"
  shows "insert_by (orderCompare ord) x (L @ U) = L @ x # U"
  using assms
proof (induction L)
  case Nil
  then show ?case by (cases U) (auto simp: orderCompare_def Let_def indexOf_unlisted)
next
  case (Cons y L)
  then show ?case by (auto simp: orderCompare_def Let_def indexOf_unlisted)
qed

lemma insert_by_listed:
  assumes "label x \<in> set ord" and "\<forall>y\<in>set L. label y \<in> set ord"
    and "\<forall>y\<in>set U. label y \<notin> set ord"
  shows "insert_by (orderCompare ord) x (L @ U) =
         insort_key (\<lambda>c. indexOf ord (label c)) x L @ U"
  using assms
proof (induction L)
  case Nil
  then show ?case by (cases U) (auto simp: orderCompare_def Let_def indexOf_unlisted)
next
  case (Cons y L)
  then show ?case by (auto simp: orderCompare_def Let_def indexOf_unlisted)
qed

lemma js_sort_by_order:
  "js_sort (orderCompare ord) cs =
     sort_key (\<lambda>c. indexOf ord (label c)) (filter (\<lambda>c. label c \<in> set ord) cs) @
     filter (\<lambda>c. label c \<notin> set ord) cs"
proof (induction cs)
  case Nil
  then show ?case by (simp add: js_sort_def)
next
  case (Cons x cs)
  let ?L = "sort_key (\<lambda>c. indexOf ord (label c)) (filter (\<lambda>c. label c \<in> set ord) cs)"
  let ?U = "filter (\<lambda>c. label c \<notin> set ord) cs"
  have step: "js_sort (orderCompare ord) (x # cs) = insert_by (orderCompare ord) x (?L @ ?U)"
    using Cons by (simp add: js_sort_def)
  have L: "\<forall>y\<in>set ?L. label y \<in> set ord" by simp
  have U: "\<forall>y\<in>set ?U. label y \<notin> set ord" by simp
  show ?case
  proof (cases "label x \<in> set ord")
    case True
    then show ?thesis using insert_by_listed [OF True L U] step by simp
  next
    case False
    then show ?thesis using insert_by_unlisted [OF False L U] step by simp
  qed
qed

lemma set_js_sort [simp]: "set (js_sort (orderCompare ord) cs) = set cs"
  by (auto simp: js_sort_by_order)

lemma mset_js_sort: "mset (js_sort (orderCompare ord) cs) = mset cs"
  by (simp add: js_sort_by_order)




section \<open>Failures during the walk\<close>

lemma parseSubFolders_append:
  "parseSubFolders uri (es1 @ es2) =
     (fst (parseSubFolders uri es1) @ fst (parseSubFolders uri es2),
      snd (parseSubFolders uri es1) @ snd (parseSubFolders uri es2))"
  by (induction es1) (auto split: prod.splits)

lemma parseFiles_append:
  "parseFiles uri (es1 @ es2) =
     (fst (parseFiles uri es1) @ fst (parseFiles uri es2),
      snd (parseFiles uri es1) @ snd (parseFiles uri es2))"
  by (induction es1) (auto split: prod.splits option.splits)

lemma parseCollections_append:
  "parseCollections uri (es1 @ es2) =
     (fst (parseCollections uri es1) @ fst (parseCollections uri es2),
      snd (parseCollections uri es1) @ snd (parseCollections uri es2))"
  by (induction es1) (auto split: prod.splits)

text \<open>
  What a failed read does. \<open>parseFolder\<close> reports a failed directory read to the logger and
  returns the folder's node all the same, without children; \<open>parseHttpFile\<close> reports a failed
  file read and returns nothing. In both cases the entries before and after the failing one
  are walked as they would be without it.
\<close>

lemma read_failures_logged:
  "parseFolder uri nm (Directory md None) =
     ([''Failed to parse folder '' @ uri_toString (Uri uri)],
      Node collection (uri_toString (Uri uri))
        (case md of Some m \<Rightarrow> (if meta_name m \<noteq> [] then meta_name m else nm) | None \<Rightarrow> nm)
        (case md of Some m \<Rightarrow> meta_description m | None \<Rightarrow> None)
        None uri uri (Some []) None) \<and>
   parseHttpFile uri nm (File None) = ([''Failed to parse HTTP file '' @ uri_toString (Uri uri)], None) \<and>
   (isSubFolder (nm, Directory md None) \<longrightarrow>
      parseSubFolders uri (es1 @ (nm, Directory md None) # es2) =
        (fst (parseSubFolders uri es1) @
           [''Failed to parse folder '' @ uri_toString (Uri (joinPath uri nm))] @
           fst (parseSubFolders uri es2),
         snd (parseSubFolders uri es1) @
           [snd (parseFolder (joinPath uri nm) nm (Directory md None))] @
           snd (parseSubFolders uri es2))) \<and>
   (isHttpEntry (nm, File None) \<longrightarrow>
      parseFiles uri (es1 @ (nm, File None) # es2) =
        (fst (parseFiles uri es1) @
           [''Failed to parse HTTP file '' @ uri_toString (Uri (joinPath uri nm))] @
           fst (parseFiles uri es2),
         snd (parseFiles uri es1) @ snd (parseFiles uri es2)))"
  by (simp add: parseSubFolders_append parseFiles_append parseHttpFile_def split: prod.splits)

lemma failure_example_facts:
  "isSubFolder (''broken'', Directory None None)"
  "isHttpEntry (''x.http'', File None)"
  "map label (snd (parseSubFolders ''/r'' ok_entries)) = [''p'']"
  "fst (parseSubFolders ''/r'' ok_entries) = []"
  "label (snd (parseFolder (joinPath ''/r'' ''broken'') ''broken'' (Directory None None))) = ''broken''"
  "snd (parseFiles ''/r'' abc_entries) \<noteq> []"
  by code_simp+

lemma read_failures_logged_example:
  "isSubFolder (''broken'', Directory None None) \<and>
   map label (snd (parseSubFolders ''/r'' (ok_entries @ (''broken'', Directory None None) # ok_entries))) =
     [''p'', ''broken'', ''p''] \<and>
   fst (parseSubFolders ''/r'' (ok_entries @ (''broken'', Directory None None) # ok_entries)) =
     [''Failed to parse folder '' @ uri_toString (Uri (joinPath ''/r'' ''broken''))] \<and>
   isHttpEntry (''x.http'', File None) \<and>
   snd (parseFiles ''/r'' (abc_entries @ (''x.http'', File None) # abc_entries)) =
     snd (parseFiles ''/r'' abc_entries) @ snd (parseFiles ''/r'' abc_entries)"
  using read_failures_logged [of "''/r''" "''broken''" None ok_entries ok_entries]
    read_failures_logged [of "''/r''" "''x.http''" None abc_entries abc_entries]
    failure_example_facts
  by (simp del: uri_toString.simps)

text \<open>
  Claim C7, on the code. \<open>parseFolder\<close> is declared to return a node or nothing, and both
  its callers test what it returns, as they do for \<open>parseHttpFile\<close>, which returns nothing
  when its read fails. But after its \<open>catch\<close> block \<open>parseFolder\<close> goes on to the \<open>return\<close> of
  the node. In the walk of a root with the folder \<open>broken\<close>, whose directory read fails, and
  the folder \<open>ok\<close>, whose only request file cannot be read, both failures are logged and the
  file is left out, but \<open>broken\<close> is in the forest, as a collection without children.
\<close>

theorem unreadable_folder_kept:
  "snd (parseCollectionTree ''/r'' None broken_root) =
     [Node collection ''file:///r/broken'' ''broken'' None None ''/r/broken'' ''/r/broken'' (Some []) None,
      Node collection ''file:///r/ok'' ''ok'' None None ''/r/ok'' ''/r/ok'' (Some []) None] \<and>
   fst (parseCollectionTree ''/r'' None broken_root) =
     [''Failed to parse folder file:///r/broken'', ''Failed to parse HTTP file file:///r/ok/x.http'']"
  by code_simp

section \<open>Identifiers\<close>

lemma parseHttpFile_id:
  "parseHttpFile uri fn e = (lg, Some n) \<Longrightarrow>
   all_nodes n = [n] \<and> filePath n = uri \<and> node_id n = uri_toString (Uri uri)"
  by (auto simp: parseHttpFile_def Let_def split: option.splits)

lemma set_parseFiles:
  "set (snd (parseFiles uri es)) =
     {n. \<exists>ne\<in>set es. isHttpEntry ne \<and> snd (parseHttpFile (joinPath uri (fst ne)) (fst ne) (snd ne)) = Some n}"
  by (induction es) (auto split: prod.splits option.splits)

lemma set_parseSubFolders:
  "set (snd (parseSubFolders uri es)) =
     (\<lambda>ne. snd (parseFolder (joinPath uri (fst ne)) (fst ne) (snd ne))) ` {ne \<in> set es. isSubFolder ne}"
proof (induction es)
  case Nil
  then show ?case by simp
next
  case (Cons ne es)
  obtain n e where ne: "ne = (n, e)" by (cases ne)
  show ?case
  proof (cases "isSubFolder ne")
    case True
    then have "{x \<in> set (ne # es). isSubFolder x} = insert ne {x \<in> set es. isSubFolder x}" by auto
    then show ?thesis using Cons True ne by (simp add: case_prod_beta)
  next
    case False
    then have "{x \<in> set (ne # es). isSubFolder x} = {x \<in> set es. isSubFolder x}" by auto
    then show ?thesis using Cons False ne by simp
  qed
qed

lemma set_parseCollections:
  "set (snd (parseCollections uri es)) =
     (\<lambda>ne. snd (parseFolder (joinPath uri (fst ne)) (fst ne) (snd ne))) ` {ne \<in> set es. isCollectionFolder ne}"
proof (induction es)
  case Nil
  then show ?case by simp
next
  case (Cons ne es)
  show ?case
  proof (cases "isCollectionFolder ne")
    case True
    then have "{x \<in> set (ne # es). isCollectionFolder x} = insert ne {x \<in> set es. isCollectionFolder x}" by auto
    then show ?thesis using Cons True by (simp add: case_prod_beta)
  next
    case False
    then have "{x \<in> set (ne # es). isCollectionFolder x} = {x \<in> set es. isCollectionFolder x}" by auto
    then show ?thesis using Cons False by simp
  qed
qed

lemma set_sortChildren [simp]: "set (sortChildren md cs) = set cs"
  by (simp add: sortChildren_def split: option.splits)

lemma all_nodes_parseFolder_ids:
  "\<forall>n\<in>set (all_nodes (snd (parseFolder uri nm d))). node_id n = uri_toString (Uri (filePath n))"
  and "\<forall>t\<in>set (snd (parseSubFolders uri es)). \<forall>n\<in>set (all_nodes t). node_id n = uri_toString (Uri (filePath n))"
proof (induction uri nm d and uri es rule: parseFolder_parseSubFolders.induct)
  case (1 folderUri nm metadata entries)
  have files: "\<forall>t\<in>set (snd (parseFiles folderUri entries)). \<forall>n\<in>set (all_nodes t). node_id n = uri_toString (Uri (filePath n))"
  proof
    fix t assume "t \<in> set (snd (parseFiles folderUri entries))"
    then obtain ne where "snd (parseHttpFile (joinPath folderUri (fst ne)) (fst ne) (snd ne)) = Some t"
      by (auto simp: set_parseFiles)
    then show "\<forall>n\<in>set (all_nodes t). node_id n = uri_toString (Uri (filePath n))"
      using parseHttpFile_id [of "joinPath folderUri (fst ne)" "fst ne" "snd ne" _ t]
      by (cases "parseHttpFile (joinPath folderUri (fst ne)) (fst ne) (snd ne)") auto
  qed
  show ?case using 1 files by (auto simp: case_prod_beta)
next
  case (6 folderUri entryName e es)
  show ?case
  proof (cases "isSubFolder (entryName, e)")
    case True
    note a = 6(1) [OF True]
    note b = 6(2) [OF True prod.collapse prod.collapse]
    show ?thesis using True a b by (auto simp: case_prod_beta)
  next
    case False
    then show ?thesis using 6(3) by simp
  qed
qed auto

lemma UN_list_all2:
  "list_all2 (\<lambda>a b. f a = f b) xs ys \<Longrightarrow> (\<Union>x\<in>set xs. f x) = (\<Union>y\<in>set ys. f y)"
  by (induction rule: list_all2_induct) auto

lemma located_ids_Node:
  "located_ids (Node t i l d m fp dp (Some cs) st) = insert (fp, i) (\<Union>c\<in>set cs. located_ids c)"
  by (auto simp: located_ids_def)

lemma located_ids_folder:
  "located_ids (snd (parseFolder uri nm (Directory md (Some es)))) =
     insert (uri, uri_toString (Uri uri)) (\<Union>ne\<in>set es. entry_ids uri ne)"
proof -
  have a: "(\<Union>c\<in>set (snd (parseSubFolders uri es)). located_ids c) =
        (\<Union>ne\<in>{ne \<in> set es. isSubFolder ne}.
           located_ids (snd (parseFolder (joinPath uri (fst ne)) (fst ne) (snd ne))))"
    by (simp add: set_parseSubFolders)
  have b: "(\<Union>c\<in>set (snd (parseFiles uri es)). located_ids c) =
        (\<Union>ne\<in>{ne \<in> set es. isHttpEntry ne}.
           (case snd (parseHttpFile (joinPath uri (fst ne)) (fst ne) (snd ne)) of
              Some n \<Rightarrow> located_ids n | None \<Rightarrow> {}))"
    by (fastforce simp: set_parseFiles split: option.splits)
  have "(\<Union>c\<in>set (snd (parseSubFolders uri es)). located_ids c) \<union>
        (\<Union>c\<in>set (snd (parseFiles uri es)). located_ids c) = (\<Union>ne\<in>set es. entry_ids uri ne)"
    unfolding a b by (auto simp: entry_ids_def split: if_splits)
  then show ?thesis
    by (simp add: case_prod_beta located_ids_Node del: uri_toString.simps)
qed

lemma reordered_File: "reordered (File c) e \<Longrightarrow> e = File c"
  by (cases rule: reordered.cases) auto

lemma reordered_Other: "reordered Other e \<Longrightarrow> e = Other"
  by (cases rule: reordered.cases) auto

lemma reordered_Directory: "reordered (Directory md es) e \<Longrightarrow> \<exists>es'. e = Directory md es'"
  by (cases rule: reordered.cases) auto

lemma reordered_kind:
  "reordered e e' \<Longrightarrow> isSubFolder (n, e) = isSubFolder (n, e') \<and> isHttpEntry (n, e) = isHttpEntry (n, e') \<and>
     isCollectionFolder (n, e) = isCollectionFolder (n, e')"
  by (cases rule: reordered.cases) (auto simp: isSubFolder_def isHttpEntry_def isCollectionFolder_def)

lemma reordered_ids:
  "reordered d d' \<Longrightarrow>
   located_ids (snd (parseFolder uri nm d)) = located_ids (snd (parseFolder uri nm d'))"
proof (induction arbitrary: uri nm rule: reordered.induct)
  case (same e)
  then show ?case by simp
next
  case (dir es es1 es2 md)
  have rel: "list_all2 (\<lambda>a b. entry_ids uri a = entry_ids uri b) es es1"
  proof (rule list_all2_mono [OF dir.IH])
    fix a b :: "string \<times> fs_entry"
    assume r: "fst a = fst b \<and> reordered (snd a) (snd b) \<and>
       (\<forall>x xa. located_ids (snd (parseFolder x xa (snd a))) = located_ids (snd (parseFolder x xa (snd b))))"
    obtain n e where a: "a = (n, e)" by (cases a)
    obtain e' where b: "b = (n, e')" using r a by (cases b) auto
    from r a b have re: "reordered e e'" by simp
    have fl: "isHttpEntry (n, e) \<Longrightarrow> e' = e"
      using re by (cases e) (auto simp: isHttpEntry_def dest: reordered_File)
    show "entry_ids uri a = entry_ids uri b"
      using r a b reordered_kind [OF re, of n] fl by (auto simp: entry_ids_def)
  qed
  have "(\<Union>ne\<in>set es. entry_ids uri ne) = (\<Union>ne\<in>set es1. entry_ids uri ne)"
    using rel by (rule UN_list_all2)
  moreover have "set es1 = set es2" using dir.hyps by (rule mset_eq_setD)
  ultimately show ?case by (simp only: located_ids_folder)
qed

lemma forest_ids_tree:
  "forest_ids (snd (parseCollectionTree root mf (Directory md (Some es)))) =
     (\<Union>ne\<in>{ne \<in> set es. isCollectionFolder ne}.
        located_ids (snd (parseFolder (joinPath root (fst ne)) (fst ne) (snd ne))))"
  by (simp add: parseCollectionTree_def forest_ids_def case_prod_beta set_parseCollections
      split: option.splits)

lemma forest_ids_failed:
  "\<forall>md es. r \<noteq> Directory md (Some es) \<Longrightarrow> forest_ids (snd (parseCollectionTree root mf r)) = {}"
  by (cases r) (auto simp: parseCollectionTree_def forest_ids_def split: option.splits)

lemma reordered_forest_ids:
  assumes "reordered r r'"
  shows "forest_ids (snd (parseCollectionTree root mf r)) = forest_ids (snd (parseCollectionTree root mf r'))"
  using assms
proof (cases rule: reordered.cases)
  case same
  then show ?thesis by simp
next
  case (dir es es1 es2 md)
  let ?f = "\<lambda>ne. if isCollectionFolder ne
                  then located_ids (snd (parseFolder (joinPath root (fst ne)) (fst ne) (snd ne))) else {}"
  have rel: "list_all2 (\<lambda>a b. ?f a = ?f b) es es1"
  proof (rule list_all2_mono [OF dir(3)])
    fix a b :: "string \<times> fs_entry"
    assume r: "fst a = fst b \<and> reordered (snd a) (snd b)"
    obtain n e where a: "a = (n, e)" by (cases a)
    obtain e' where b: "b = (n, e')" using r a by (cases b) auto
    from r a b have re: "reordered e e'" by simp
    show "?f a = ?f b"
      using a b reordered_kind [OF re, of n] reordered_ids [OF re] by auto
  qed
  have "(\<Union>ne\<in>set es. ?f ne) = (\<Union>ne\<in>set es1. ?f ne)"
    using rel by (rule UN_list_all2)
  moreover have "set es1 = set es2" using dir(4) by (rule mset_eq_setD)
  moreover have "\<And>xs. (\<Union>ne\<in>{ne \<in> set xs. isCollectionFolder ne}.
        located_ids (snd (parseFolder (joinPath root (fst ne)) (fst ne) (snd ne)))) = (\<Union>ne\<in>set xs. ?f ne)"
    by (auto split: if_splits)
  ultimately show ?thesis using dir(1,2) by (simp only: forest_ids_tree)
qed

lemma forest_node_ids:
  "\<forall>t\<in>set (snd (parseCollectionTree root mf r)). \<forall>n\<in>set (all_nodes t).
     node_id n = uri_toString (Uri (filePath n))"
proof (cases "\<exists>md es. r = Directory md (Some es)")
  case True
  then obtain md es where r: "r = Directory md (Some es)" by blast
  have "set (snd (parseCollectionTree root mf r)) = set (snd (parseCollections root es))"
    using r by (simp add: parseCollectionTree_def case_prod_beta split: option.splits)
  then show ?thesis
    using all_nodes_parseFolder_ids(1) by (auto simp: set_parseCollections simp del: uri_toString.simps)
next
  case False
  then have "snd (parseCollectionTree root mf r) = []"
    by (cases r) (auto simp: parseCollectionTree_def split: option.splits)
  then show ?thesis by simp
qed

lemma identified_simps [simp]:
  "identified [] = {}"
  "identified (p # ps) = insert (p, uri_toString (Uri p)) (identified ps)"
  "identified (ps @ qs) = identified ps \<union> identified qs"
  by (auto simp: identified_def)

lemma forest_ids_simps [simp]:
  "forest_ids [] = {}"
  "forest_ids (t # ts) = located_ids t \<union> forest_ids ts"
  "forest_ids (ts @ us) = forest_ids ts \<union> forest_ids us"
  by (auto simp: forest_ids_def)

lemma forest_ids_sortChildren [simp]: "forest_ids (sortChildren md cs) = forest_ids cs"
  by (simp add: forest_ids_def)

lemma forest_ids_js_sort [simp]: "forest_ids (js_sort (orderCompare ord) ts) = forest_ids ts"
  by (simp add: forest_ids_def)

lemma located_ids_children:
  "located_ids (Node t i l d m fp dp (Some cs) st) = insert (fp, i) (forest_ids cs)"
  by (simp add: located_ids_Node forest_ids_def)

lemma located_ids_request:
  "parseHttpFile uri fn (File (Some t)) = (lg, Some n) \<Longrightarrow> located_ids n = {(uri, uri_toString (Uri uri))}"
  using parseHttpFile_id [of uri fn "File (Some t)" lg n] by (simp add: located_ids_def)

lemma parseHttpFile_unread: "snd (parseHttpFile uri fn (File None)) = None"
  by (simp add: parseHttpFile_def)

lemma parseHttpFile_read: "\<exists>n. snd (parseHttpFile uri fn (File (Some t))) = Some n"
  by (simp add: parseHttpFile_def Let_def)

text \<open>The nodes of a walk stand at the locations of the tree, each with its URI string.\<close>

lemma walk_locations:
  "located_ids (snd (parseFolder uri nm d)) = identified (folder_locations uri d)"
  and "forest_ids (snd (parseSubFolders uri es)) \<union> forest_ids (snd (parseFiles uri es)) =
       identified (entries_locations uri es)"
proof (induction uri nm d and uri es rule: parseFolder_parseSubFolders.induct)
  case (1 folderUri nm metadata entries)
  then show ?case
    by (simp add: case_prod_beta located_ids_children del: uri_toString.simps)
next
  case (6 folderUri entryName e es)
  show ?case
  proof (cases e)
    case (File c)
    then have ns: "\<not> isSubFolder (entryName, e)" by (simp add: isSubFolder_def)
    note rest = 6(3) [OF ns]
    show ?thesis
    proof (cases c)
      case None
      then show ?thesis using File ns rest
        by (simp add: case_prod_beta isHttpEntry_def parseHttpFile_unread del: uri_toString.simps)
    next
      case (Some t)
      obtain n where n: "snd (parseHttpFile (joinPath folderUri entryName) entryName (File (Some t))) = Some n"
        using parseHttpFile_read by blast
      then have "located_ids n = {(joinPath folderUri entryName, uri_toString (Uri (joinPath folderUri entryName)))}"
        using located_ids_request [of "joinPath folderUri entryName" entryName t _ n]
        by (cases "parseHttpFile (joinPath folderUri entryName) entryName (File (Some t))") simp
      then show ?thesis using File Some ns rest n
        by (auto simp: case_prod_beta isHttpEntry_def simp del: uri_toString.simps)
    qed
  next
    case (Directory md sub)
    then have nh: "\<not> isHttpEntry (entryName, e)" by (simp add: isHttpEntry_def)
    show ?thesis
    proof (cases "isSubFolder (entryName, e)")
      case True
      note a = 6(1) [OF True]
      note b = 6(2) [OF True prod.collapse prod.collapse]
      from True Directory have "\<not> (startsWith entryName ''.'' \<or> startsWith entryName ''_'')"
        by (simp add: isSubFolder_def)
      then show ?thesis using True a b nh Directory
        by (auto simp: case_prod_beta simp del: uri_toString.simps)
    next
      case False
      note rest = 6(3) [OF False]
      from False Directory have "startsWith entryName ''.'' \<or> startsWith entryName ''_''"
        by (simp add: isSubFolder_def)
      then show ?thesis using False rest nh Directory
        by (auto simp: case_prod_beta simp del: uri_toString.simps)
    qed
  next
    case Other
    then have ns: "\<not> isSubFolder (entryName, e)" and nh: "\<not> isHttpEntry (entryName, e)"
      by (simp_all add: isSubFolder_def isHttpEntry_def)
    show ?thesis using 6(3) [OF ns] ns nh Other by simp
  qed
qed (simp_all add: located_ids_children del: uri_toString.simps)

lemma forest_ids_collections:
  "forest_ids (snd (parseCollections root es)) =
     identified (concat (map (\<lambda>ne. case snd ne of
                              Directory md sub \<Rightarrow>
                                (if startsWith (fst ne) ''.'' \<or> fst ne = ''environments'' then []
                                 else folder_locations (joinPath root (fst ne)) (snd ne))
                            | _ \<Rightarrow> []) es))"
proof (induction es)
  case Nil
  then show ?case by simp
next
  case (Cons ne es)
  show ?case
  proof (cases "isCollectionFolder ne")
    case True
    then obtain md sub where d: "snd ne = Directory md sub"
      and n: "\<not> (startsWith (fst ne) ''.'' \<or> fst ne = ''environments'')"
      by (cases "snd ne") (auto simp: isCollectionFolder_def)
    show ?thesis using True Cons d n
      by (simp add: case_prod_beta walk_locations(1) del: uri_toString.simps)
  next
    case False
    then have "(case snd ne of
                  Directory md sub \<Rightarrow>
                    (if startsWith (fst ne) ''.'' \<or> fst ne = ''environments'' then []
                     else folder_locations (joinPath root (fst ne)) (snd ne))
                | _ \<Rightarrow> []) = []"
      by (cases "snd ne") (auto simp: isCollectionFolder_def)
    then show ?thesis using False Cons by simp
  qed
qed

lemma tree_walk_locations:
  "forest_ids (snd (parseCollectionTree root mf r)) = identified (tree_locations root r)"
proof (cases "\<exists>md es. r = Directory md (Some es)")
  case True
  then obtain md es where r: "r = Directory md (Some es)" by blast
  show ?thesis
    unfolding r
    by (simp add: parseCollectionTree_def tree_locations_def case_prod_beta forest_ids_collections
        split: option.splits)
next
  case False
  then have "forest_ids (snd (parseCollectionTree root mf r)) = {}"
    by (intro forest_ids_failed) blast
  moreover have "tree_locations root r = []"
    using False by (cases r) (auto simp: tree_locations_def split: option.splits)
  ultimately show ?thesis by simp
qed

lemma parseFolder_root:
  "node_id (snd (parseFolder uri nm d)) = uri_toString (Uri uri) \<and> filePath (snd (parseFolder uri nm d)) = uri"
  by (cases "(uri, nm, d)" rule: parseFolder.cases) (simp_all add: case_prod_beta del: uri_toString.simps)

text \<open>
  Claim C9. The node that the walk of a folder returns has the walked location as its file
  path and the URI string of that location as its identifier. The nodes of a walk, of one
  folder or of the whole root, stand at the locations that the tree of files has - the
  folder, its sub-folders and its readable request files, at any depth - and the node at a
  location has the URI string of that location as its identifier; so every node's identifier
  is the URI string of its own file path. A walk of the same tree enumerated in another order,
  at any depth, gives the same locations with the same identifiers.
\<close>

theorem node_ids_stable:
  "node_id (snd (parseFolder uri nm d)) = uri_toString (Uri uri) \<and>
   filePath (snd (parseFolder uri nm d)) = uri \<and>
   located_ids (snd (parseFolder uri nm d)) = identified (folder_locations uri d) \<and>
   forest_ids (snd (parseCollectionTree root mf r)) = identified (tree_locations root r) \<and>
   (\<forall>n\<in>set (all_nodes (snd (parseFolder uri nm d))). node_id n = uri_toString (Uri (filePath n))) \<and>
   (\<forall>t\<in>set (snd (parseCollectionTree root mf r)). \<forall>n\<in>set (all_nodes t).
      node_id n = uri_toString (Uri (filePath n))) \<and>
   (reordered d d' \<longrightarrow>
      located_ids (snd (parseFolder uri nm d)) = located_ids (snd (parseFolder uri nm d'))) \<and>
   (reordered r r' \<longrightarrow>
      forest_ids (snd (parseCollectionTree root mf r)) = forest_ids (snd (parseCollectionTree root mf r')))"
  using all_nodes_parseFolder_ids(1) [of uri nm d] forest_node_ids [of root mf r]
    reordered_ids [of d d' uri nm] reordered_forest_ids [of r r' root mf]
    parseFolder_root [of uri nm d] walk_locations(1) [of uri nm d] tree_walk_locations [of root mf r]
  by blast

lemma reordered_example: "reordered (Directory None (Some nested_entries)) (Directory None (Some nested_swapped))"
proof (rule reordered.dir [where ?es1.0 = nested_entries])
  show "list_all2 (\<lambda>a b. fst a = fst b \<and> reordered (snd a) (snd b)) nested_entries nested_entries"
    by (simp add: list_all2_same reordered.same)
  show "mset nested_entries = mset nested_swapped"
    by (simp add: nested_entries_def nested_swapped_def)
qed

lemma nested_example_facts:
  "folder_locations c_uri (Directory None (Some nested_entries)) =
     [''/r/C'', ''/r/C/a.http'', ''/r/C/My Sub'', ''/r/C/My Sub/b c.http'']"
  "uri_toString (Uri c_uri) = ''file:///r/C''"
  "uri_toString (Uri ''/r/C'') = ''file:///r/C''"
  "uri_toString (Uri ''/r/C/a.http'') = ''file:///r/C/a.http''"
  "uri_toString (Uri ''/r/C/My Sub'') = ''file:///r/C/My%20Sub''"
  "uri_toString (Uri ''/r/C/My Sub/b c.http'') = ''file:///r/C/My%20Sub/b%20c.http''"
  by code_simp+

theorem node_ids_stable_witness:
  "reordered (Directory None (Some nested_entries)) (Directory None (Some nested_swapped)) \<and>
   node_id (snd (parseFolder c_uri ''C'' (Directory None (Some nested_entries)))) = ''file:///r/C'' \<and>
   located_ids (snd (parseFolder c_uri ''C'' (Directory None (Some nested_entries)))) =
     {(''/r/C'', ''file:///r/C''),
      (''/r/C/a.http'', ''file:///r/C/a.http''),
      (''/r/C/My Sub'', ''file:///r/C/My%20Sub''),
      (''/r/C/My Sub/b c.http'', ''file:///r/C/My%20Sub/b%20c.http'')} \<and>
   located_ids (snd (parseFolder c_uri ''C'' (Directory None (Some nested_swapped)))) =
     {(''/r/C'', ''file:///r/C''),
      (''/r/C/a.http'', ''file:///r/C/a.http''),
      (''/r/C/My Sub'', ''file:///r/C/My%20Sub''),
      (''/r/C/My Sub/b c.http'', ''file:///r/C/My%20Sub/b%20c.http'')}"
proof -
  note t = node_ids_stable [of c_uri "''C''" "Directory None (Some nested_entries)" "''/r''" None broken_root
      "Directory None (Some nested_swapped)" broken_root]
  note root = t [THEN conjunct1]
  note locs = t [THEN conjunct2, THEN conjunct2, THEN conjunct1]
  note other = t [THEN conjunct2, THEN conjunct2, THEN conjunct2, THEN conjunct2, THEN conjunct2,
      THEN conjunct2, THEN conjunct1, THEN mp, OF reordered_example]
  have ids: "identified [''/r/C'', ''/r/C/a.http'', ''/r/C/My Sub'', ''/r/C/My Sub/b c.http''] =
     {(''/r/C'', ''file:///r/C''),
      (''/r/C/a.http'', ''file:///r/C/a.http''),
      (''/r/C/My Sub'', ''file:///r/C/My%20Sub''),
      (''/r/C/My Sub/b c.http'', ''file:///r/C/My%20Sub/b%20c.http'')}"
    by (simp only: identified_simps nested_example_facts(3-6))
  have a: "node_id (snd (parseFolder c_uri ''C'' (Directory None (Some nested_entries)))) = ''file:///r/C''"
    using root by (simp only: nested_example_facts(2))
  have b: "located_ids (snd (parseFolder c_uri ''C'' (Directory None (Some nested_entries)))) =
     {(''/r/C'', ''file:///r/C''),
      (''/r/C/a.http'', ''file:///r/C/a.http''),
      (''/r/C/My Sub'', ''file:///r/C/My%20Sub''),
      (''/r/C/My Sub/b c.http'', ''file:///r/C/My%20Sub/b%20c.http'')}"
    using locs by (simp only: nested_example_facts(1) ids)
  have c: "located_ids (snd (parseFolder c_uri ''C'' (Directory None (Some nested_swapped)))) =
     {(''/r/C'', ''file:///r/C''),
      (''/r/C/a.http'', ''file:///r/C/a.http''),
      (''/r/C/My Sub'', ''file:///r/C/My%20Sub''),
      (''/r/C/My Sub/b c.http'', ''file:///r/C/My%20Sub/b%20c.http'')}"
    using other b by (simp only:)
  show ?thesis
    by (intro conjI reordered_example a b c)
qed

section \<open>The timers of the change coordinator\<close>

lemma writeRequest_proj:
  "timers (snd (writeRequest js r s)) =
     timers s @ (case write_target r of Some U \<Rightarrow> [(nextHandle s, clock s + 100, ClearPending U)] | None \<Rightarrow> [])"
  "written (snd (writeRequest js r s)) =
     written s @ (case write_target r of Some U \<Rightarrow> [(U, generate js r)] | None \<Rightarrow> [])"
  "pendingWrites (snd (writeRequest js r s)) =
     (case write_target r of Some U \<Rightarrow> insert U (pendingWrites s) | None \<Rightarrow> pendingWrites s)"
  "writeDebounceTimers (snd (writeRequest js r s)) = writeDebounceTimers s"
  "clock (snd (writeRequest js r s)) = clock s"
  "debounceDelay (snd (writeRequest js r s)) = debounceDelay s"
  "fired (snd (writeRequest js r s)) = fired s"
  by (auto simp: writeRequest_def write_target_def setTimeout_def Let_def split: option.splits sum.splits)

lemma fire_proj:
  "timers (fire js a s) =
     timers s @ (case a of
                   DebouncedWrite r u \<Rightarrow>
                     (case write_target r of
                        Some U \<Rightarrow> [(nextHandle s, clock s + 100, ClearPending U)] | None \<Rightarrow> [])
                 | ClearPending u \<Rightarrow> [])"
  "written (fire js a s) =
     written s @ (case a of
                    DebouncedWrite r u \<Rightarrow>
                      (case write_target r of Some U \<Rightarrow> [(U, generate js r)] | None \<Rightarrow> [])
                  | ClearPending u \<Rightarrow> [])"
  "pendingWrites (fire js a s) =
     (case a of
        DebouncedWrite r u \<Rightarrow>
          (case write_target r of Some U \<Rightarrow> insert U (pendingWrites s) | None \<Rightarrow> pendingWrites s)
      | ClearPending u \<Rightarrow> pendingWrites s - {u})"
  "writeDebounceTimers (fire js a s) =
     (case a of
        DebouncedWrite r u \<Rightarrow> (writeDebounceTimers s)(u := None)
      | ClearPending u \<Rightarrow> writeDebounceTimers s)"
  "clock (fire js a s) = clock s"
  "debounceDelay (fire js a s) = debounceDelay s"
  "fired (fire js a s) = fired s"
  by (cases a; simp add: writeRequest_proj Let_def)+

declare fire.simps [simp del]

lemma related_ClearPending [simp]: "\<not> related P (h, d, ClearPending u)"
  by (simp add: related_def)

lemma filter_related_fire:
  "filter (related P) (timers (fire js a s)) = filter (related P) (timers s)"
  by (simp add: fire_proj split: timer_action.splits option.splits)

text \<open>Firing timers that do not concern \<open>P\<close> changes nothing that concerns \<open>P\<close>.\<close>

lemma fold_unrelated:
  assumes "\<forall>x\<in>set xs. \<not> related P x"
  shows "filter (related P) (timers (foldl (\<lambda>st x. fire js (snd (snd x)) st) s xs)) = filter (related P) (timers s) \<and>
         writes_to P (foldl (\<lambda>st x. fire js (snd (snd x)) st) s xs) = writes_to P s \<and>
         writeDebounceTimers (foldl (\<lambda>st x. fire js (snd (snd x)) st) s xs) P = writeDebounceTimers s P \<and>
         clock (foldl (\<lambda>st x. fire js (snd (snd x)) st) s xs) = clock s \<and>
         debounceDelay (foldl (\<lambda>st x. fire js (snd (snd x)) st) s xs) = debounceDelay s"
  using assms
proof (induction xs arbitrary: s)
  case Nil
  then show ?case by simp
next
  case (Cons x xs)
  obtain h d a where x: "x = (h, d, a)" by (cases x)
  have nr: "\<not> related P (h, d, a)" using Cons.prems x by simp
  have w: "writes_to P (fire js a s) = writes_to P s"
    using nr by (auto simp: writes_to_def fire_proj related_def split: timer_action.splits option.splits)
  have m: "writeDebounceTimers (fire js a s) P = writeDebounceTimers s P"
    using nr by (auto simp: fire_proj related_def split: timer_action.splits)
  have c: "clock (fire js a s) = clock s" "debounceDelay (fire js a s) = debounceDelay s"
    by (simp_all add: fire_proj)
  show ?case
    using Cons.IH [of "fire js a s"] Cons.prems x w m c
    by (simp add: filter_related_fire)
qed

lemma tick_quiet:
  assumes "\<forall>x\<in>set (timers s). related P x \<longrightarrow> clock s + 1 < fst (snd x)"
  shows "filter (related P) (timers (tick js s)) = filter (related P) (timers s) \<and>
         writes_to P (tick js s) = writes_to P s \<and>
         writeDebounceTimers (tick js s) P = writeDebounceTimers s P \<and>
         clock (tick js s) = clock s + 1 \<and>
         debounceDelay (tick js s) = debounceDelay s"
proof -
  let ?due = "filter (\<lambda>x. fst (snd x) \<le> clock s + 1) (timers s)"
  let ?s1 = "s\<lparr>clock := clock s + 1, timers := filter (\<lambda>x. \<not> fst (snd x) \<le> clock s + 1) (timers s)\<rparr>"
  have due: "\<forall>x\<in>set ?due. \<not> related P x" using assms by auto
  have keep: "filter (related P) (timers ?s1) = filter (related P) (timers s)"
    using assms by (auto intro!: filter_cong)
  have "tick js s = foldl (\<lambda>st x. fire js (snd (snd x)) st) ?s1 ?due"
    by (simp add: tick_def Let_def)
  then show ?thesis
    using fold_unrelated [OF due, of js ?s1] keep by (simp add: writes_to_def)
qed

lemma tick_fire:
  assumes one: "filter (related P) (timers s) = [(h, D, DebouncedWrite r P)]"
    and target: "write_target r = Some P"
    and due: "D \<le> clock s + 1"
  shows "filter (related P) (timers (tick js s)) = [] \<and>
         writes_to P (tick js s) = writes_to P s @ [generate js r] \<and>
         clock (tick js s) = clock s + 1 \<and>
         debounceDelay (tick js s) = debounceDelay s"
proof -
  let ?T = "(h, D, DebouncedWrite r P)"
  let ?f = "\<lambda>st x. fire js (snd (snd x)) st"
  let ?p = "\<lambda>x. fst (snd x) \<le> clock s + 1"
  let ?s1 = "s\<lparr>clock := clock s + 1, timers := filter (\<lambda>x. \<not> ?p x) (timers s)\<rparr>"
  from one obtain A B where split: "timers s = A @ ?T # B"
    and A: "\<forall>x\<in>set A. \<not> related P x" and B: "filter (related P) B = []"
    by (auto simp: filter_eq_Cons_iff)
  have B': "\<forall>x\<in>set B. \<not> related P x" using B by (simp add: filter_empty_conv)
  have dueA: "\<forall>x\<in>set (filter ?p A). \<not> related P x" using A by simp
  have dueB: "\<forall>x\<in>set (filter ?p B). \<not> related P x" using B' by simp
  have tick: "tick js s = foldl ?f (fire js (DebouncedWrite r P) (foldl ?f ?s1 (filter ?p A))) (filter ?p B)"
    using split due by (simp add: tick_def Let_def)
  let ?sA = "foldl ?f ?s1 (filter ?p A)"
  let ?sT = "fire js (DebouncedWrite r P) ?sA"
  have s1: "filter (related P) (timers ?s1) = []"
    using split A B' due by (auto simp: filter_empty_conv)
  note a = fold_unrelated [OF dueA, of js ?s1]
  have "filter (related P) (timers ?sA) = filter (related P) (timers ?s1)" using a by blast
  then have sT_t: "filter (related P) (timers ?sT) = []"
    by (simp only: filter_related_fire s1)
  have "writes_to P ?sT = writes_to P ?sA @ [generate js r]"
    using target by (simp add: writes_to_def fire_proj)
  moreover have "writes_to P ?sA = writes_to P ?s1" using a by blast
  moreover have "writes_to P ?s1 = writes_to P s" by (simp add: writes_to_def)
  ultimately have sT_w: "writes_to P ?sT = writes_to P s @ [generate js r]" by simp
  have "clock ?sA = clock ?s1" "debounceDelay ?sA = debounceDelay ?s1" using a by blast+
  then have sT_c: "clock ?sT = clock s + 1" "debounceDelay ?sT = debounceDelay s"
    by (simp_all add: fire_proj)
  note b = fold_unrelated [OF dueB, of js ?sT]
  have "filter (related P) (timers (tick js s)) = filter (related P) (timers ?sT)"
    "writes_to P (tick js s) = writes_to P ?sT"
    "clock (tick js s) = clock ?sT" "debounceDelay (tick js s) = debounceDelay ?sT"
    unfolding tick using b by blast+
  then show ?thesis using sT_t sT_w sT_c by (simp only:)
qed

lemma advance_quiet:
  assumes "\<forall>x\<in>set (timers s). related P x \<longrightarrow> clock s + n < fst (snd x)"
  shows "filter (related P) (timers (advance js n s)) = filter (related P) (timers s) \<and>
         writes_to P (advance js n s) = writes_to P s \<and>
         writeDebounceTimers (advance js n s) P = writeDebounceTimers s P \<and>
         clock (advance js n s) = clock s + n \<and>
         debounceDelay (advance js n s) = debounceDelay s"
  using assms
proof (induction n arbitrary: s)
  case 0
  then show ?case by simp
next
  case (Suc n)
  have q: "\<forall>x\<in>set (timers s). related P x \<longrightarrow> clock s + 1 < fst (snd x)"
    using Suc.prems by auto
  note t = tick_quiet [OF q, of js]
  have "\<forall>x\<in>set (timers (tick js s)). related P x \<longrightarrow> clock (tick js s) + n < fst (snd x)"
  proof (intro ballI impI)
    fix x assume "x \<in> set (timers (tick js s))" "related P x"
    then have "x \<in> set (filter (related P) (timers (tick js s)))" by simp
    then have "x \<in> set (filter (related P) (timers s))" using t by simp
    then have "x \<in> set (timers s)" by simp
    then show "clock (tick js s) + n < fst (snd x)"
      using Suc.prems \<open>related P x\<close> t by auto
  qed
  from Suc.IH [OF this] t show ?case by simp
qed

lemma advance_fire:
  assumes "filter (related P) (timers s) = [(h, D, DebouncedWrite r P)]"
    and "write_target r = Some P"
    and "clock s < D" and "D \<le> clock s + n"
  shows "filter (related P) (timers (advance js n s)) = [] \<and>
         writes_to P (advance js n s) = writes_to P s @ [generate js r]"
  using assms
proof (induction n arbitrary: s)
  case 0
  then show ?case by simp
next
  case (Suc n)
  show ?case
  proof (cases "D \<le> clock s + 1")
    case True
    note t = tick_fire [OF Suc.prems(1,2) True, of js]
    have "\<forall>x\<in>set (timers (tick js s)). related P x \<longrightarrow> clock (tick js s) + n < fst (snd x)"
      using t by (auto simp: filter_empty_conv)
    from advance_quiet [OF this, of js] t show ?thesis by simp
  next
    case False
    have q: "\<forall>x\<in>set (timers s). related P x \<longrightarrow> clock s + 1 < fst (snd x)"
    proof (intro ballI impI)
      fix x assume "x \<in> set (timers s)" "related P x"
      then have "x \<in> set (filter (related P) (timers s))" by simp
      then show "clock s + 1 < fst (snd x)" using Suc.prems(1) False by simp
    qed
    note t = tick_quiet [OF q, of js]
    have "filter (related P) (timers (tick js s)) = [(h, D, DebouncedWrite r P)]"
      using t Suc.prems(1) by simp
    moreover have "clock (tick js s) < D" "D \<le> clock (tick js s) + n"
      using t False Suc.prems(4) by auto
    ultimately show ?thesis using Suc.IH [of "tick js s"] Suc.prems(2) t by simp
  qed
qed

lemma ensureUri_idem: "ensureUri u = Inr uri \<Longrightarrow> ensureUri uri = Inr uri"
  by (cases u) (auto split: if_splits)

lemma write_target_cases:
  "write_target r = Some P \<Longrightarrow>
   \<exists>u uri. fileUri r = Some u \<and> ensureUri u = Inr uri \<and> uri_toString uri = P"
  by (auto simp: write_target_def split: option.splits sum.splits)

lemma generate_fileUri [simp]: "generate js (r\<lparr>fileUri := x\<rparr>) = generate js r"
  by (simp add: generate_def metaLines_def preRequestLines_def headerLines_def bodyLinesOf_def
      generateBody_def testLines_def)

lemma write_target_normalized:
  "ensureUri u = Inr uri \<Longrightarrow> write_target (r\<lparr>fileUri := Some uri\<rparr>) = Some (uri_toString uri)"
  by (simp add: write_target_def ensureUri_idem)

text \<open>Clearing the registered timer leaves no debounced write for \<open>P\<close>.\<close>

lemma cleared_unrelated:
  assumes "registered P s"
  shows "filter (related P)
           (timers (case writeDebounceTimers s P of Some h \<Rightarrow> clearTimeout h s | None \<Rightarrow> s)) = []"
proof (cases "writeDebounceTimers s P")
  case None
  then show ?thesis using assms by (auto simp: registered_def list_all_iff filter_empty_conv)
next
  case (Some h)
  then show ?thesis using assms
    by (auto simp: registered_def list_all_iff filter_empty_conv clearTimeout_def)
qed

lemma cleared_proj:
  "written (case writeDebounceTimers s P of Some h \<Rightarrow> clearTimeout h s | None \<Rightarrow> s) = written s"
  "clock (case writeDebounceTimers s P of Some h \<Rightarrow> clearTimeout h s | None \<Rightarrow> s) = clock s"
  "debounceDelay (case writeDebounceTimers s P of Some h \<Rightarrow> clearTimeout h s | None \<Rightarrow> s) = debounceDelay s"
  "nextHandle (case writeDebounceTimers s P of Some h \<Rightarrow> clearTimeout h s | None \<Rightarrow> s) = nextHandle s"
  "pendingWrites (case writeDebounceTimers s P of Some h \<Rightarrow> clearTimeout h s | None \<Rightarrow> s) = pendingWrites s"
  "fired (case writeDebounceTimers s P of Some h \<Rightarrow> clearTimeout h s | None \<Rightarrow> s) = fired s"
  by (simp_all add: clearTimeout_def split: option.splits)

lemma save_debounced:
  assumes target: "write_target r = Some P" and reg: "registered P s"
  shows "\<exists>r'. filter (related P) (timers (snd (saveRequest js r False s))) =
                 [(nextHandle s, clock s + max 1 (debounceDelay s), DebouncedWrite r' P)] \<and>
              write_target r' = Some P \<and> generate js r' = generate js r"
    and "fst (saveRequest js r False s) = None"
    and "writes_to P (snd (saveRequest js r False s)) = writes_to P s"
    and "writeDebounceTimers (snd (saveRequest js r False s)) P = Some (nextHandle s)"
    and "clock (snd (saveRequest js r False s)) = clock s"
    and "debounceDelay (snd (saveRequest js r False s)) = debounceDelay s"
proof -
  from write_target_cases [OF target] obtain u uri
    where u: "fileUri r = Some u" "ensureUri u = Inr uri" "uri_toString uri = P" by blast
  let ?s1 = "case writeDebounceTimers s P of Some h \<Rightarrow> clearTimeout h s | None \<Rightarrow> s"
  let ?r' = "r\<lparr>fileUri := Some uri\<rparr>"
  let ?T = "(nextHandle s, clock s + max 1 (debounceDelay s), DebouncedWrite ?r' P)"
  have s': "snd (saveRequest js r False s) =
      ?s1\<lparr>nextHandle := nextHandle ?s1 + 1, timers := timers ?s1 @ [?T],
           writeDebounceTimers := (writeDebounceTimers ?s1)(P \<mapsto> nextHandle s)\<rparr>"
    using u by (simp add: saveRequest_def Let_def setTimeout_def cleared_proj)
  have rel: "related P ?T" by (simp add: related_def)
  show "\<exists>r'. filter (related P) (timers (snd (saveRequest js r False s))) =
                 [(nextHandle s, clock s + max 1 (debounceDelay s), DebouncedWrite r' P)] \<and>
              write_target r' = Some P \<and> generate js r' = generate js r"
    using cleared_unrelated [OF reg] rel write_target_normalized [OF u(2), of r] u(3)
    by (intro exI [of _ ?r']) (simp add: s')
  show "fst (saveRequest js r False s) = None"
    using u by (simp add: saveRequest_def Let_def case_prod_beta)
  show "writes_to P (snd (saveRequest js r False s)) = writes_to P s"
    by (simp add: s' writes_to_def cleared_proj)
  show "writeDebounceTimers (snd (saveRequest js r False s)) P = Some (nextHandle s)"
    by (simp add: s')
  show "clock (snd (saveRequest js r False s)) = clock s"
    by (simp add: s' cleared_proj)
  show "debounceDelay (snd (saveRequest js r False s)) = debounceDelay s"
    by (simp add: s' cleared_proj)
qed

lemma registered_single:
  "filter (related P) (timers s) = [(h, D, a)] \<Longrightarrow> writeDebounceTimers s P = Some h \<Longrightarrow> registered P s"
proof -
  assume f: "filter (related P) (timers s) = [(h, D, a)]" and m: "writeDebounceTimers s P = Some h"
  have "\<forall>x\<in>set (timers s). related P x \<longrightarrow> x = (h, D, a)"
  proof (intro ballI impI)
    fix x assume "x \<in> set (timers s)" "related P x"
    then have "x \<in> set (filter (related P) (timers s))" by simp
    then show "x = (h, D, a)" using f by simp
  qed
  then show ?thesis using m by (auto simp: registered_def list_all_iff)
qed

text \<open>
  Claim C3. Let two requests be written to the same location \<open>P\<close>, and let the service be in
  a state it can reach (a pending debounced write for \<open>P\<close> is the registered one). After a
  non-immediate save of the first, a second non-immediate save less than the debounce delay
  later, and at least the debounce delay of further time, the writes to \<open>P\<close> are those done
  before followed by exactly one more, of the text generated from the second request; no write
  to \<open>P\<close> happens before the second save, whose call clears the first call's timer.
\<close>

theorem debounce_coalesces:
  assumes t1: "write_target r1 = Some P" and t2: "write_target r2 = Some P"
    and reg: "registered P s"
    and d: "d < max 1 (debounceDelay s)" and e: "max 1 (debounceDelay s) \<le> e"
  shows "fst (saveRequest js r1 False s) = None \<and>
         fst (saveRequest js r2 False (advance js d (snd (saveRequest js r1 False s)))) = None \<and>
         writes_to P (snd (saveRequest js r2 False (advance js d (snd (saveRequest js r1 False s))))) =
           writes_to P s \<and>
         writes_to P (advance js e (snd (saveRequest js r2 False (advance js d (snd (saveRequest js r1 False s)))))) =
           writes_to P s @ [generate js r2]"
proof -
  let ?a = "snd (saveRequest js r1 False s)"
  let ?b = "advance js d ?a"
  let ?c = "snd (saveRequest js r2 False ?b)"
  let ?D = "max 1 (debounceDelay s)"
  from save_debounced(1) [OF t1 reg, of js] obtain r1'
    where a_t: "filter (related P) (timers ?a) = [(nextHandle s, clock s + ?D, DebouncedWrite r1' P)]"
    by blast
  note a = save_debounced(2-6) [OF t1 reg, of js]
  have quiet: "\<forall>x\<in>set (timers ?a). related P x \<longrightarrow> clock ?a + d < fst (snd x)"
  proof (intro ballI impI)
    fix x assume "x \<in> set (timers ?a)" "related P x"
    then have "x \<in> set (filter (related P) (timers ?a))" by simp
    then show "clock ?a + d < fst (snd x)" using a_t a(4) d by simp
  qed
  note b = advance_quiet [OF quiet, of js]
  have b_reg: "registered P ?b"
    using b a_t a(3) by (intro registered_single [of P ?b "nextHandle s" "clock s + ?D" "DebouncedWrite r1' P"]) simp_all
  from save_debounced(1) [OF t2 b_reg, of js] obtain r2'
    where c_t: "filter (related P) (timers ?c) =
                  [(nextHandle ?b, clock ?b + max 1 (debounceDelay ?b), DebouncedWrite r2' P)]"
      and r2': "write_target r2' = Some P" "generate js r2' = generate js r2"
    by blast
  note c = save_debounced(2-6) [OF t2 b_reg, of js]
  have "clock ?c < clock ?b + max 1 (debounceDelay ?b)" using c(4) by simp
  moreover have "clock ?b + max 1 (debounceDelay ?b) \<le> clock ?c + e"
    using c(4) b a(5) e by simp
  ultimately have "writes_to P (advance js e ?c) = writes_to P ?c @ [generate js r2']"
    using advance_fire [OF c_t r2'(1), of e js] by simp
  then show ?thesis using a b c r2'(2) by simp
qed

lemma save_example_facts:
  "write_target first_request = Some saved_location"
  "write_target second_request = Some saved_location"
  "registered saved_location (newService 300)"
  "unmarked saved_location (newService 300)"
  "uri_toString (Uri saved_path) = saved_location"
  "uri_fsPath (Uri saved_path) = saved_path"
  "isHttpFile (Uri saved_path)"
  "writes_to saved_location (newService 300) = []"
  "fired (newService 300) = []"
  "clock (newService 300) = 0"
  "debounceDelay (newService 300) = 300"
  by code_simp+

theorem debounce_coalesces_witness:
  "write_target first_request = Some saved_location \<and>
   write_target second_request = Some saved_location \<and>
   registered saved_location (newService 300) \<and>
   writes_to saved_location
     (advance no_gql 300
        (snd (saveRequest no_gql second_request False
               (advance no_gql 100 (snd (saveRequest no_gql first_request False (newService 300))))))) =
     [generate no_gql second_request]"
  using debounce_coalesces [where ?r1.0 = first_request and P = saved_location and ?r2.0 = second_request
        and s = "newService 300" and d = 100 and e = 300 and js = no_gql]
    save_example_facts
  by simp

section \<open>The mark of a pending write\<close>

lemma ends_mark_simp [simp]: "ends_mark P (h, d, a) = (a = ClearPending P)"
  by (simp add: ends_mark_def)

lemma fire_unrelated_pending:
  assumes "\<not> related P (h, d, a)"
  shows "(P \<in> pendingWrites (fire js a s)) = (P \<in> pendingWrites s \<and> a \<noteq> ClearPending P)"
    and "filter (ends_mark P) (timers (fire js a s)) = filter (ends_mark P) (timers s)"
  using assms
  by (auto simp: fire_proj related_def split: timer_action.splits option.splits)

lemma fold_pending:
  assumes "\<forall>x\<in>set xs. \<not> related P x"
  shows "(P \<in> pendingWrites (foldl (\<lambda>st x. fire js (snd (snd x)) st) s xs)) =
           (P \<in> pendingWrites s \<and> (\<forall>x\<in>set xs. \<not> ends_mark P x))"
    and "filter (ends_mark P) (timers (foldl (\<lambda>st x. fire js (snd (snd x)) st) s xs)) =
           filter (ends_mark P) (timers s)"
    and "fired (foldl (\<lambda>st x. fire js (snd (snd x)) st) s xs) = fired s"
  using assms
proof (induction xs arbitrary: s)
  case Nil
  {
    case 1 show ?case by simp
  next
    case 2 show ?case by simp
  next
    case 3 show ?case by simp
  }
next
  case (Cons x xs)
  obtain h d a where x: "x = (h, d, a)" by (cases x)
  {
    case 1
    then have nr: "\<not> related P (h, d, a)" and rest: "\<forall>x\<in>set xs. \<not> related P x" using x by simp_all
    show ?case
      using Cons.IH(1) [OF rest, of "fire js a s"] fire_unrelated_pending(1) [OF nr, of js s] x
      by auto
  next
    case 2
    then have nr: "\<not> related P (h, d, a)" and rest: "\<forall>x\<in>set xs. \<not> related P x" using x by simp_all
    show ?case
      using Cons.IH(2) [OF rest, of "fire js a s"] fire_unrelated_pending(2) [OF nr, of js s] x
      by simp
  next
    case 3
    then have rest: "\<forall>x\<in>set xs. \<not> related P x" by simp
    show ?case
      using Cons.IH(3) [OF rest, of "fire js a s"] x by (simp add: fire_proj)
  }
qed

lemma tick_pending:
  assumes none: "filter (related P) (timers s) = []"
  shows "(P \<in> pendingWrites (tick js s)) =
           (P \<in> pendingWrites s \<and> (\<forall>x\<in>set (timers s). ends_mark P x \<longrightarrow> clock s + 1 < fst (snd x)))"
    and "filter (ends_mark P) (timers (tick js s)) =
           filter (\<lambda>x. ends_mark P x \<and> clock s + 1 < fst (snd x)) (timers s)"
    and "filter (related P) (timers (tick js s)) = []"
    and "clock (tick js s) = clock s + 1"
    and "fired (tick js s) = fired s"
proof -
  let ?due = "filter (\<lambda>x. fst (snd x) \<le> clock s + 1) (timers s)"
  let ?s1 = "s\<lparr>clock := clock s + 1, timers := filter (\<lambda>x. \<not> fst (snd x) \<le> clock s + 1) (timers s)\<rparr>"
  have nr: "\<forall>x\<in>set (timers s). \<not> related P x" using none by (simp add: filter_empty_conv)
  then have due: "\<forall>x\<in>set ?due. \<not> related P x" by simp
  have q: "\<forall>x\<in>set (timers s). related P x \<longrightarrow> clock s + 1 < fst (snd x)" using nr by blast
  have t: "tick js s = foldl (\<lambda>st x. fire js (snd (snd x)) st) ?s1 ?due"
    by (simp add: tick_def Let_def)
  have m: "filter (ends_mark P) (timers ?s1) =
           filter (\<lambda>x. ends_mark P x \<and> clock s + 1 < fst (snd x)) (timers s)"
    by (auto intro!: filter_cong)
  have d: "(\<forall>x\<in>set ?due. \<not> ends_mark P x) =
           (\<forall>x\<in>set (timers s). ends_mark P x \<longrightarrow> clock s + 1 < fst (snd x))"
    (is "?L = ?R")
  proof
    assume L: ?L
    show ?R
    proof (intro ballI impI)
      fix x assume x: "x \<in> set (timers s)" "ends_mark P x"
      show "clock s + 1 < fst (snd x)"
      proof (rule ccontr)
        assume "\<not> clock s + 1 < fst (snd x)"
        then have "x \<in> set ?due" using x(1) by simp
        with L x(2) show False by blast
      qed
    qed
  next
    assume ?R
    then show ?L by auto
  qed
  note f = fold_pending [OF due, of js ?s1]
  show "(P \<in> pendingWrites (tick js s)) =
           (P \<in> pendingWrites s \<and> (\<forall>x\<in>set (timers s). ends_mark P x \<longrightarrow> clock s + 1 < fst (snd x)))"
    unfolding t f(1) d by simp
  show "filter (ends_mark P) (timers (tick js s)) =
           filter (\<lambda>x. ends_mark P x \<and> clock s + 1 < fst (snd x)) (timers s)"
    unfolding t f(2) m ..
  show "filter (related P) (timers (tick js s)) = []"
    using tick_quiet [OF q, of js] none by simp
  show "clock (tick js s) = clock s + 1"
    using tick_quiet [OF q, of js] by simp
  show "fired (tick js s) = fired s"
    unfolding t f(3) by simp
qed

lemma advance_out:
  assumes "filter (related P) (timers s) = []" and "P \<notin> pendingWrites s"
  shows "P \<notin> pendingWrites (advance js n s) \<and> fired (advance js n s) = fired s"
  using assms
proof (induction n arbitrary: s)
  case 0
  then show ?case by simp
next
  case (Suc n)
  note t = tick_pending [OF Suc.prems(1), of js]
  have "P \<notin> pendingWrites (tick js s)" using t(1) Suc.prems(2) by simp
  from Suc.IH [OF t(3) this] t(5) show ?case by simp
qed

lemma advance_mark:
  assumes "filter (related P) (timers s) = []"
    and "filter (ends_mark P) (timers s) = [(h, D, ClearPending P)]"
    and "P \<in> pendingWrites s" and "clock s < D"
  shows "(P \<in> pendingWrites (advance js n s)) = (clock s + n < D) \<and>
         fired (advance js n s) = fired s \<and> clock (advance js n s) = clock s + n"
  using assms
proof (induction n arbitrary: s)
  case 0
  then show ?case by simp
next
  case (Suc n)
  note t = tick_pending [OF Suc.prems(1), of js]
  have mem: "(h, D, ClearPending P) \<in> set (timers s)"
  proof -
    have "(h, D, ClearPending P) \<in> set (filter (ends_mark P) (timers s))"
      using Suc.prems(2) by simp
    then show ?thesis by simp
  qed
  have only: "\<forall>x\<in>set (timers s). ends_mark P x \<longrightarrow> x = (h, D, ClearPending P)"
  proof (intro ballI impI)
    fix x assume "x \<in> set (timers s)" "ends_mark P x"
    then have "x \<in> set (filter (ends_mark P) (timers s))" by simp
    then show "x = (h, D, ClearPending P)" using Suc.prems(2) by simp
  qed
  have "\<forall>x\<in>set (timers (tick js s)). related P x \<longrightarrow> clock (tick js s) + n < fst (snd x)"
    using t(3) by (simp add: filter_empty_conv)
  from advance_quiet [OF this, of js] have cl: "clock (advance js n (tick js s)) = clock s + Suc n"
    using t(4) by simp
  show ?case
  proof (cases "clock s + 1 < D")
    case True
    have "filter (\<lambda>x. ends_mark P x \<and> clock s + 1 < fst (snd x)) (timers s) = filter (ends_mark P) (timers s)"
      using only True by (auto intro!: filter_cong)
    then have "filter (ends_mark P) (timers (tick js s)) = [(h, D, ClearPending P)]"
      using t(2) Suc.prems(2) by simp
    moreover have "P \<in> pendingWrites (tick js s)"
    proof -
      have "\<forall>x\<in>set (timers s). ends_mark P x \<longrightarrow> clock s + 1 < fst (snd x)"
        using only True by auto
      then show ?thesis using t(1) Suc.prems(3) by simp
    qed
    moreover have "clock (tick js s) < D" using t(4) True by simp
    ultimately show ?thesis using Suc.IH [OF t(3)] t(4,5) by simp
  next
    case False
    have "\<not> (\<forall>x\<in>set (timers s). ends_mark P x \<longrightarrow> clock s + 1 < fst (snd x))"
      using mem False by force
    then have "P \<notin> pendingWrites (tick js s)" using t(1) by simp
    from advance_out [OF t(3) this, of js n] show ?thesis using t(5) False cl by simp
  qed
qed

lemma endsWith_last: "endsWith s p \<Longrightarrow> p \<noteq> [] \<Longrightarrow> last s = last p"
proof -
  assume e: "endsWith s p" and p: "p \<noteq> []"
  then have d: "drop (length s - length p) s = p" and l: "length p \<le> length s"
    by (simp_all add: endsWith_def)
  from p l have "length s - length p < length s" by (cases p) auto
  then have "last (drop (length s - length p) s) = last s" by (rule last_drop)
  with d show ?thesis by simp
qed

lemma http_not_environment: "isHttpFile uri \<Longrightarrow> \<not> isEnvironmentFile uri"
  by (auto simp: isHttpFile_def isEnvironmentFile_def dest!: endsWith_last)

lemma save_immediate:
  assumes target: "write_target r = Some P" and reg: "registered P s" and un: "unmarked P s"
  shows "filter (related P) (timers (snd (saveRequest js r True s))) = []"
    and "filter (ends_mark P) (timers (snd (saveRequest js r True s))) =
           [(nextHandle s, clock s + 100, ClearPending P)]"
    and "P \<in> pendingWrites (snd (saveRequest js r True s))"
    and "clock (snd (saveRequest js r True s)) = clock s"
    and "fired (snd (saveRequest js r True s)) = fired s"
    and "writes_to P (snd (saveRequest js r True s)) = writes_to P s @ [generate js r]"
proof -
  from write_target_cases [OF target] obtain u uri
    where u: "fileUri r = Some u" "ensureUri u = Inr uri" "uri_toString uri = P" by blast
  let ?s1 = "case writeDebounceTimers s P of Some h \<Rightarrow> clearTimeout h s | None \<Rightarrow> s"
  let ?r' = "r\<lparr>fileUri := Some uri\<rparr>"
  have s': "snd (saveRequest js r True s) = snd (writeRequest js ?r' ?s1)"
    using u by (simp add: saveRequest_def Let_def)
  have t': "write_target ?r' = Some P"
    using write_target_normalized [OF u(2), of r] u(3) by simp
  have m: "filter (ends_mark P) (timers ?s1) = []"
    using un by (auto simp: unmarked_def list_all_iff filter_empty_conv ends_mark_def clearTimeout_def
        split: option.splits)
  show "filter (related P) (timers (snd (saveRequest js r True s))) = []"
    using cleared_unrelated [OF reg] by (simp add: s' writeRequest_proj t')
  show "filter (ends_mark P) (timers (snd (saveRequest js r True s))) =
           [(nextHandle s, clock s + 100, ClearPending P)]"
    using m by (simp add: s' writeRequest_proj t' cleared_proj)
  show "P \<in> pendingWrites (snd (saveRequest js r True s))"
    by (simp add: s' writeRequest_proj t')
  show "clock (snd (saveRequest js r True s)) = clock s"
    by (simp add: s' writeRequest_proj cleared_proj)
  show "fired (snd (saveRequest js r True s)) = fired s"
    by (simp add: s' writeRequest_proj cleared_proj)
  show "writes_to P (snd (saveRequest js r True s)) = writes_to P s @ [generate js r]"
    by (simp add: s' writeRequest_proj t' writes_to_def cleared_proj)
qed

text \<open>
  Claim C2, as the code has it. Let the service be in a state it can reach, with no earlier
  write to \<open>P\<close> still within its grace window. After an immediate save to \<open>P\<close> has completed,
  \<open>P\<close> is in \<open>pendingWrites\<close>, and every change notification for \<open>P\<close> that arrives less than
  100 ms later is swallowed, whatever caused it, a write by another process included. A change
  notification for a request file \<open>P\<close> that arrives 100 ms later or more fires the
  request-changed event with the request parsed from the file.
\<close>

theorem grace_window_swallows:
  assumes target: "write_target r = Some P" and reg: "registered P s" and un: "unmarked P s"
    and uri: "uri_toString uri = P"
  shows "P \<in> pendingWrites (snd (saveRequest js r True s)) \<and>
         (d < 100 \<longrightarrow>
            onFileChanged uri (advance js d (snd (saveRequest js r True s))) =
              advance js d (snd (saveRequest js r True s)) \<and>
            onFileChanged uri (externalWrite p t (advance js d (snd (saveRequest js r True s)))) =
              externalWrite p t (advance js d (snd (saveRequest js r True s)))) \<and>
         (100 \<le> d \<and> isHttpFile uri \<longrightarrow>
            fired (onFileChanged uri
                     (externalWrite (uri_fsPath uri) t (advance js d (snd (saveRequest js r True s))))) =
              fired s @ [RequestChanged P (parseHttpText (clock s + d) t (Some uri))])"
proof -
  let ?s' = "snd (saveRequest js r True s)"
  note i = save_immediate [OF target reg un, of js]
  have "clock ?s' < clock s + 100" using i(4) by simp
  note a = advance_mark [OF i(1) i(2) i(3) this, of js d]
  have within: "d < 100 \<Longrightarrow> P \<in> pendingWrites (advance js d ?s')" using a i(4) by simp
  have after: "100 \<le> d \<Longrightarrow> P \<notin> pendingWrites (advance js d ?s')" using a i(4) by simp
  have f: "fired (advance js d ?s') = fired s" "clock (advance js d ?s') = clock s + d"
    using a i(4,5) by simp_all
  show ?thesis
    using within after f i(3) uri http_not_environment [of uri]
    by (auto simp: onFileChanged_def externalWrite_def)
qed

theorem grace_window_swallows_witness:
  "write_target first_request = Some saved_location \<and>
   registered saved_location (newService 300) \<and>
   unmarked saved_location (newService 300) \<and>
   uri_toString (Uri saved_path) = saved_location \<and>
   isHttpFile (Uri saved_path) \<and>
   onFileChanged (Uri saved_path)
     (externalWrite saved_path changed_text
        (advance no_gql 50 (snd (saveRequest no_gql first_request True (newService 300))))) =
   externalWrite saved_path changed_text
     (advance no_gql 50 (snd (saveRequest no_gql first_request True (newService 300)))) \<and>
   fired (onFileChanged (Uri saved_path)
            (externalWrite saved_path changed_text
               (advance no_gql 150 (snd (saveRequest no_gql first_request True (newService 300)))))) =
   [RequestChanged saved_location (parseHttpText 150 changed_text (Some (Uri saved_path)))]"
  using grace_window_swallows [where r = first_request and P = saved_location and s = "newService 300"
        and uri = "Uri saved_path" and d = 50 and js = no_gql and p = saved_path and t = changed_text]
    grace_window_swallows [where r = first_request and P = saved_location and s = "newService 300"
        and uri = "Uri saved_path" and d = 150 and js = no_gql and p = saved_path and t = changed_text]
    save_example_facts
  by simp

text \<open>
  Claim C2 as stated fails: another process changes \<open>P\<close> 50 ms after the immediate save, the
  notification of that change arrives, and no event is fired.
\<close>

theorem external_change_swallowed:
  "fired (onFileChanged (Uri saved_path)
            (externalWrite saved_path changed_text
               (advance no_gql 50 (snd (saveRequest no_gql first_request True (newService 300)))))) = []"
  by code_simp

section \<open>The round trip through the generator and the parser\<close>

subsection \<open>More facts about strings\<close>

lemma startsWith_Nil [simp]: "startsWith s [] = True"
  by (simp add: startsWith_def)

lemma startsWith_Cons [simp]: "startsWith (c # s) (d # p) = (c = d \<and> startsWith s p)"
  by (auto simp: startsWith_def)

lemma startsWith_empty [simp]: "startsWith [] (d # p) = False"
  by (simp add: startsWith_def)

lemma trim_eq: "trim s = trimEnd (dropWhile is_ws s)"
  by (simp add: trim_def trimEnd_def)

lemma trimEnd_Cons:
  "trimEnd (c # t) = (if is_ws c \<and> (\<forall>x\<in>set t. is_ws x) then [] else c # trimEnd t)"
  unfolding trimEnd_def by (rule rdrop_Cons)

lemma trimEnd_Nil [simp]: "trimEnd [] = []"
  by (simp add: trimEnd_def)

lemma trimEnd_append_nonws:
  "a \<noteq> [] \<Longrightarrow> \<not> is_ws (last a) \<Longrightarrow> trimEnd (a @ b) = a @ trimEnd b"
proof (induction a)
  case Nil
  then show ?case by simp
next
  case (Cons c a)
  show ?case
  proof (cases "a = []")
    case True
    then show ?thesis using Cons.prems by (simp add: trimEnd_Cons)
  next
    case False
    then have "\<not> is_ws (last a)" using Cons.prems by simp
    moreover have "\<not> (\<forall>x\<in>set (a @ b). is_ws x)"
      using False \<open>\<not> is_ws (last a)\<close> by (metis UnCI last_in_set set_append)
    ultimately show ?thesis using Cons.IH False by (simp add: trimEnd_Cons)
  qed
qed

lemma trimEnd_nonws_last: "a \<noteq> [] \<Longrightarrow> \<not> is_ws (last a) \<Longrightarrow> trimEnd a = a"
  using trimEnd_append_nonws [of a "[]"] by simp

lemma trim_trimmed: "trimmed s \<Longrightarrow> trim s = s"
  by (cases s) (auto simp: trimmed_def trim_eq trimEnd_nonws_last)

lemma trimEnd_all_ws: "\<forall>x\<in>set s. is_ws x \<Longrightarrow> trimEnd s = []"
  by (simp add: trimEnd_def)

lemma trimEnd_append_ws: "\<forall>x\<in>set b. is_ws x \<Longrightarrow> trimEnd (a @ b) = trimEnd a"
  by (simp add: trimEnd_def dropWhile_append)

lemma trim_eq2: "trim s = dropWhile is_ws (trimEnd s)"
  by (simp add: trim_def trimEnd_def drop_both_commute)

lemma trim_append_ws: "\<forall>x\<in>set b. is_ws x \<Longrightarrow> trim (a @ b) = trim a"
  by (simp add: trim_eq2 trimEnd_append_ws)

lemma trimEnd_idem [simp]: "trimEnd (trimEnd s) = trimEnd s"
proof (cases "\<forall>x\<in>set s. is_ws x")
  case True
  then show ?thesis by (simp add: trimEnd_all_ws)
next
  case False
  then have "dropWhile is_ws (rev s) \<noteq> []" by simp
  then have "\<not> is_ws (hd (dropWhile is_ws (rev s)))" by (rule hd_dropWhile)
  then have "dropWhile is_ws (dropWhile is_ws (rev s)) = dropWhile is_ws (rev s)"
    by (cases "dropWhile is_ws (rev s)") auto
  then show ?thesis by (simp add: trimEnd_def)
qed

lemma trim_trimEnd: "trim (trimEnd s) = trim s"
  by (simp add: trim_eq2)

lemma takeWhile_until: "x \<notin> set a \<Longrightarrow> takeWhile (\<lambda>c. c \<noteq> x) (a @ x # b) = a"
  by (induction a) auto

lemma is_ws_space [simp]: "is_ws (CHR '' '')"
  by (simp add: is_ws_def)

lemma is_ws_LF [simp]: "is_ws LF"
  by (simp add: is_ws_def)

lemma trim_indent [simp]: "trim (CHR '' '' # CHR '' '' # l) = trim l"
  by (simp add: trim_ws_Cons)

subsection \<open>The request line of a generated text\<close>

lemma toUpperCase_method [simp]: "toUpperCase (method_name m) = method_name m"
  by (cases m) (simp_all add: toUpperCase_def upper_char_def)

lemma upper_space [simp]: "upper_char (CHR '' '') = CHR '' ''"
  by (simp add: upper_char_def)

lemma method_prefix_unique:
  "toUpperCase (take (length (method_name m')) (method_name m @ CHR '' '' # g)) = method_name m' \<Longrightarrow> m' = m"
  by (cases m; cases m'; simp add: toUpperCase_def upper_char_def)

lemma first_some_unique:
  "x \<in> set xs \<Longrightarrow> first_some (\<lambda>y. if y = x then Some v else None) xs = Some v"
  by (induction xs) auto

lemma match_tail_space:
  assumes "g \<noteq> []" "\<not> is_ws (hd g)" "\<not> list_ex is_lt g"
  shows "match_tail (CHR '' '' # g) = Some g"
proof -
  have "takeWhile is_ws g = []" using assms(1,2) by (cases g) auto
  then show ?thesis using assms by (simp add: match_tail_def Let_def)
qed

lemma matchRequestLine_generated:
  assumes "g \<noteq> []" "\<not> is_ws (hd g)" "\<not> list_ex is_lt g"
  shows "matchRequestLine (method_name m @ CHR '' '' # g) = Some (m, g)"
proof -
  have "match_method (method_name m @ CHR '' '' # g) = (\<lambda>m'. if m' = m then Some (m, g) else None)"
  proof
    fix m'
    show "match_method (method_name m @ CHR '' '' # g) m' = (if m' = m then Some (m, g) else None)"
      using method_prefix_unique [of m' m g] match_tail_space [OF assms]
      by (auto simp: match_method_def Let_def)
  qed
  moreover have "m \<in> set all_methods" by (cases m) (simp_all add: all_methods_def)
  ultimately show ?thesis by (simp add: matchRequestLine_def first_some_unique)
qed

subsection \<open>Query parameters: encoding and decoding\<close>

lemma percent_decode_plain:
  assumes "c \<noteq> CHR ''%''"
  shows "percent_decode (c # rest) = c # percent_decode rest"
proof (cases rest)
  case Nil
  then show ?thesis by simp
next
  case (Cons d r)
  then show ?thesis using assms by (cases r) simp_all
qed

lemma percent_decode_escape:
  "hex_val h1 = Some a \<Longrightarrow> hex_val h2 = Some b \<Longrightarrow>
   percent_decode (CHR ''%'' # h1 # h2 # rest) = char_of (16 * a + b) # percent_decode rest"
  by simp

lemma hex_val_digit: "n < 16 \<Longrightarrow> hex_val (hex_digit n) = Some n"
  by (auto simp: hex_val_def hex_digit_def Let_def)

lemma unreserved_hex: "n < 16 \<Longrightarrow> unreserved (hex_digit n)"
  by (auto simp: unreserved_def hex_digit_def Let_def)

lemma not_unreserved:
  "\<not> unreserved (CHR ''%'')" "\<not> unreserved (CHR ''+'')" "\<not> unreserved (CHR ''='')"
  "\<not> unreserved (CHR ''&'')" "\<not> unreserved (CHR ''?'')" "\<not> unreserved LF" "\<not> unreserved CR"
  by code_simp+

lemma unreserved_not_ws: "unreserved c \<Longrightarrow> \<not> is_ws c"
  by (auto simp: unreserved_def is_ws_def Let_def)

lemma of_char_lt_256: "(of_char c :: nat) < 256"
  by (metis of_char_mod_256 mod_less_divisor zero_less_numeral)

lemma percent_decode_encode_char:
  "percent_decode (encode_char c @ rest) = c # percent_decode rest"
proof (cases "unreserved c")
  case True
  then have "c \<noteq> CHR ''%''" using not_unreserved(1) by auto
  then show ?thesis using True by (simp add: encode_char_def percent_decode_plain)
next
  case False
  let ?n = "of_char c :: nat"
  have d: "?n div 16 < 16" using of_char_lt_256 [of c] by arith
  have m: "?n mod 16 < 16" by simp
  have "char_of (16 * (?n div 16) + ?n mod 16) = c" by simp
  then show ?thesis
    using False percent_decode_escape [OF hex_val_digit [OF d] hex_val_digit [OF m], of rest]
    by (simp add: encode_char_def)
qed

lemma percent_decode_encode [simp]: "percent_decode (encodeURIComponent s) = s"
  by (induction s) (simp_all add: encodeURIComponent_def percent_decode_encode_char)

lemma encoded_chars: "x \<in> set (encodeURIComponent s) \<Longrightarrow> unreserved x \<or> x = CHR ''%''"
proof (induction s)
  case Nil
  then show ?case by (simp add: encodeURIComponent_def)
next
  case (Cons c s)
  have "(of_char c :: nat) div 16 < 16" using of_char_lt_256 [of c] by arith
  then show ?case using Cons unreserved_hex [of "of_char c div 16"] unreserved_hex [of "of_char c mod 16"]
    by (auto simp: encodeURIComponent_def encode_char_def split: if_splits)
qed

lemma encoded_free:
  "CHR ''+'' \<notin> set (encodeURIComponent s)" "CHR ''='' \<notin> set (encodeURIComponent s)"
  "CHR ''&'' \<notin> set (encodeURIComponent s)" "CHR ''?'' \<notin> set (encodeURIComponent s)"
  "LF \<notin> set (encodeURIComponent s)" "CR \<notin> set (encodeURIComponent s)"
  using encoded_chars [of _ s] not_unreserved by auto

lemma encoded_not_ws: "x \<in> set (encodeURIComponent s) \<Longrightarrow> \<not> is_ws x"
  using encoded_chars [of x s] unreserved_not_ws [of x] by (auto simp: is_ws_def)

lemma plus_to_space_encoded [simp]: "plus_to_space (encodeURIComponent s) = encodeURIComponent s"
proof -
  have "\<forall>x\<in>set (encodeURIComponent s). x \<noteq> CHR ''+''" using encoded_free(1) by auto
  then show ?thesis by (simp add: plus_to_space_def map_idI)
qed

lemma decode_pair_encoded:
  "decode_pair (encodeURIComponent k @ CHR ''='' # encodeURIComponent v) = (k, v)"
proof -
  have "takeWhile (\<lambda>c. c \<noteq> CHR ''='') (encodeURIComponent k @ CHR ''='' # encodeURIComponent v) =
        encodeURIComponent k"
    using encoded_free(2) [of k] by (rule takeWhile_until)
  then show ?thesis by (simp add: decode_pair_def Let_def)
qed

lemma encoded_pair_free:
  "CHR ''&'' \<notin> set (encoded_pair p)" "CHR ''?'' \<notin> set (encoded_pair p)"
  "LF \<notin> set (encoded_pair p)" "CR \<notin> set (encoded_pair p)" "encoded_pair p \<noteq> []"
  "x \<in> set (encoded_pair p) \<Longrightarrow> \<not> is_ws x"
  using encoded_free [of "key p"] encoded_free [of "val p"]
    encoded_not_ws [of x "key p"] encoded_not_ws [of x "val p"]
  by (auto simp: encoded_pair_def is_ws_def)

lemma join_free:
  "\<forall>l\<in>set ls. x \<notin> set l \<Longrightarrow> x \<notin> set sep \<Longrightarrow> x \<notin> set (join sep ls)"
  by (induction sep ls rule: join.induct) auto

lemma join_not_Nil: "ls \<noteq> [] \<Longrightarrow> hd ls \<noteq> [] \<Longrightarrow> join sep ls \<noteq> []"
  by (induction sep ls rule: join.induct) auto

lemma hd_join: "ls \<noteq> [] \<Longrightarrow> hd ls \<noteq> [] \<Longrightarrow> hd (join sep ls) = hd (hd ls)"
  by (induction sep ls rule: join.induct) auto

lemma urlSearchParams_encoded:
  assumes "ps \<noteq> []"
  shows "urlSearchParams (join ''&'' (map encoded_pair ps)) = map (\<lambda>p. (key p, val p)) ps"
proof -
  let ?q = "join ''&'' (map encoded_pair ps)"
  have ne: "?q \<noteq> []" using assms encoded_pair_free(5) by (intro join_not_Nil) (auto simp: hd_map)
  have "CHR ''?'' \<notin> set ?q" using encoded_pair_free(2) by (intro join_free) auto
  then have "\<not> startsWith ?q ''?''" using ne by (cases ?q) auto
  moreover have "split (CHR ''&'') ?q = map encoded_pair ps"
    using assms encoded_pair_free(1) by (intro split_join) auto
  moreover have "filter (\<lambda>p. p \<noteq> []) (map encoded_pair ps) = map encoded_pair ps"
    using encoded_pair_free(5) by (simp add: filter_id_conv)
  moreover have "map decode_pair (map encoded_pair ps) = map (\<lambda>p. (key p, val p)) ps"
    by (simp add: encoded_pair_def decode_pair_encoded)
  ultimately show ?thesis by (simp add: urlSearchParams_def Let_def)
qed

subsection \<open>One line of a generated text\<close>

lemma kv_new [simp]: "kv \<lparr>key = k, val = v, enabled = e, kv_description = d\<rparr> = (k, v, e)"
  by (simp add: kv_def)

lemma core_setRequestLine:
  "req_method (setRequestLine r m g) = m"
  "headers (setRequestLine r m g) = headers r"
  by (simp_all add: setRequestLine_def Let_def)

lemma matchRequestLine_Nil [simp]: "matchRequestLine [] = None"
  by code_simp

lemma step_hash:
  "startsWith (trim l) ''#'' \<Longrightarrow> core (parseLine s l) = core s"
  by (cases "trim l") (auto simp: parseLine_def core_def Let_def)

lemma step_script:
  "inScript s \<Longrightarrow> \<not> startsWith (trim l) ''}}'' \<Longrightarrow> core (parseLine s l) = core s"
  by (auto simp: parseLine_def core_def Let_def)

lemma step_open:
  "trim l = ''{{'' \<Longrightarrow>
   core (parseLine s l) =
     (req_method (request s), url (request s), map kv (headers (request s)),
      map kv (queryParams (request s)), inBody s, bodyLines s, True)"
  by (simp add: parseLine_def core_def Let_def)

lemma step_close:
  "trim l = ''}}'' \<Longrightarrow>
   core (parseLine s l) =
     (req_method (request s), url (request s), map kv (headers (request s)),
      map kv (queryParams (request s)), inBody s, bodyLines s, False)"
  by (auto simp: parseLine_def core_def Let_def split: option.splits script_type.splits)

lemma step_blank:
  "\<not> inScript s \<Longrightarrow>
   core (parseLine s []) =
     (req_method (request s), url (request s), map kv (headers (request s)),
      map kv (queryParams (request s)),
      inBody s \<or> url (request s) \<noteq> [],
      (if inBody s then bodyLines s @ [[]] else bodyLines s), False)"
  by (auto simp: parseLine_def core_def Let_def)

lemma step_plain:
  "\<not> inScript s \<Longrightarrow> inBody s \<Longrightarrow> plain_line l \<Longrightarrow>
   core (parseLine s l) =
     (req_method (request s), url (request s), map kv (headers (request s)),
      map kv (queryParams (request s)), True, bodyLines s @ [l], False)"
  by (cases "trim l") (auto simp: parseLine_def core_def Let_def plain_line_def)

lemma first_some_None: "\<forall>x\<in>set xs. f x = None \<Longrightarrow> first_some f xs = None"
  by (induction xs) auto

text \<open>A line whose trimmed form starts with a character that opens no other kind of line.\<close>

lemma step_request_line:
  assumes "\<not> inScript s" and "trim l = c # rest"
    and "c \<noteq> CHR ''#''" "c \<noteq> CHR ''{''" "c \<noteq> CHR ''}''" "c \<noteq> CHR ''/''"
    and "matchRequestLine (c # rest) = Some (m, g)"
  shows "parseLine s l = s\<lparr>request := setRequestLine (request s) m g\<rparr>"
  using assms by (simp add: parseLine_def Let_def)

lemma step_header_line:
  assumes "\<not> inScript s" and "\<not> inBody s" and "trim l = c # rest"
    and "c \<noteq> CHR ''#''" "c \<noteq> CHR ''{''" "c \<noteq> CHR ''}''" "c \<noteq> CHR ''/''"
    and "matchRequestLine (c # rest) = None"
    and "CHR '':'' \<in> set (c # rest)"
    and "trim (take (indexOfChar (c # rest) (CHR '':'')) (c # rest)) = k"
    and "trim (drop (indexOfChar (c # rest) (CHR '':'') + 1) (c # rest)) = v"
    and "k \<noteq> []" "\<not> startsWith k ''{''"
  shows "parseLine s l =
           s\<lparr>request := (request s)\<lparr>headers := headers (request s) @
                [\<lparr>key = k, val = v, enabled = True, kv_description = None\<rparr>]\<rparr>\<rparr>"
  using assms by (simp add: parseLine_def Let_def)

lemma method_name_head:
  "\<exists>c rest. method_name m = c # rest \<and> c \<noteq> CHR ''#'' \<and> c \<noteq> CHR ''{'' \<and> c \<noteq> CHR ''}'' \<and>
     c \<noteq> CHR ''/'' \<and> \<not> is_ws c"
  by (cases m) (simp_all add: is_ws_def)

lemma method_name_no_colon: "CHR '':'' \<notin> set (method_name m)"
  by (cases m) simp_all

lemma key_char_simps:
  "key_char c \<Longrightarrow> \<not> is_ws c \<and> c \<noteq> CHR '':'' \<and> c \<noteq> CHR ''#'' \<and> c \<noteq> CHR ''/'' \<and> c \<noteq> CHR ''{'' \<and> c \<noteq> CHR ''}''"
  by (simp add: key_char_def)

lemma upper_colon [simp]: "upper_char (CHR '':'') = CHR '':''"
  by (simp add: upper_char_def)

text \<open>A header line is not a request line.\<close>

lemma header_not_request:
  assumes k: "list_all key_char k"
  shows "matchRequestLine (k @ CHR '':'' # w) = None"
proof -
  have "match_method (k @ CHR '':'' # w) m = None" for m
  proof (cases "length (method_name m) \<le> length k")
    case True
    let ?d = "drop (length (method_name m)) (k @ CHR '':'' # w)"
    have "?d = drop (length (method_name m)) k @ CHR '':'' # w" using True by simp
    moreover have "\<not> is_ws (hd (drop (length (method_name m)) k @ CHR '':'' # w))"
    proof (cases "drop (length (method_name m)) k")
      case Nil
      then show ?thesis by (simp add: is_ws_def)
    next
      case (Cons a as)
      then have "a \<in> set (drop (length (method_name m)) k)" by simp
      then have "a \<in> set k" by (rule in_set_dropD)
      then show ?thesis using k Cons key_char_simps [of a] by (simp add: list_all_iff)
    qed
    ultimately have "takeWhile is_ws ?d = []"
      by (cases ?d) auto
    then have "match_tail ?d = None" by (simp add: match_tail_def Let_def)
    then show ?thesis by (simp add: match_method_def Let_def)
  next
    case False
    then obtain j where "length (method_name m) - length k = Suc j"
      by (cases "length (method_name m) - length k") auto
    then have "CHR '':'' \<in> set (take (length (method_name m)) (k @ CHR '':'' # w))"
      by simp
    then have "upper_char (CHR '':'') \<in> upper_char ` set (take (length (method_name m)) (k @ CHR '':'' # w))"
      by (rule imageI)
    then have "CHR '':'' \<in> set (toUpperCase (take (length (method_name m)) (k @ CHR '':'' # w)))"
      by (simp only: toUpperCase_def set_map upper_colon)
    then have "toUpperCase (take (length (method_name m)) (k @ CHR '':'' # w)) \<noteq> method_name m"
      using method_name_no_colon [of m] by auto
    then show ?thesis by (simp add: match_method_def Let_def)
  qed
  then show ?thesis by (simp add: matchRequestLine_def first_some_None)
qed

lemma trim_nonws_Cons: "\<not> is_ws c \<Longrightarrow> trim (c # x) = c # trimEnd x"
  by (simp add: trim_eq trimEnd_Cons)

lemma trimmed_line: "\<not> is_ws c \<Longrightarrow> x \<noteq> [] \<Longrightarrow> \<not> is_ws (last x) \<Longrightarrow> trim (c # x) = c # x"
  by (simp add: trim_nonws_Cons trimEnd_nonws_last)

lemma buildUrl_ok:
  assumes "list_all param_ok ps"
  shows "buildUrl u ps = (if ps = [] then u else u @ CHR ''?'' # join ''&'' (map encoded_pair ps))"
proof -
  have "filter (\<lambda>p. enabled p \<and> key p \<noteq> []) ps = ps"
    using assms by (simp add: list_all_iff param_ok_def filter_id_conv)
  moreover have "encoded_pair = (\<lambda>p. encodeURIComponent (key p) @ ''='' @ encodeURIComponent (val p))"
    by (rule ext) (simp add: encoded_pair_def)
  ultimately show ?thesis by (simp add: buildUrl_def Let_def)
qed

lemma buildUrl_Nil [simp]: "buildUrl u [] = u"
  by (simp add: buildUrl_def)

lemma query_free:
  assumes "ps \<noteq> []"
  shows "CHR ''?'' \<notin> set (join ''&'' (map encoded_pair ps))"
    and "LF \<notin> set (join ''&'' (map encoded_pair ps))"
    and "CR \<notin> set (join ''&'' (map encoded_pair ps))"
    and "join ''&'' (map encoded_pair ps) \<noteq> []"
    and "\<forall>x\<in>set (join ''&'' (map encoded_pair ps)). \<not> is_ws x"
proof -
  show "CHR ''?'' \<notin> set (join ''&'' (map encoded_pair ps))"
    using encoded_pair_free(2) by (intro join_free) auto
  show "LF \<notin> set (join ''&'' (map encoded_pair ps))"
    using encoded_pair_free(3) by (intro join_free) auto
  show "CR \<notin> set (join ''&'' (map encoded_pair ps))"
    using encoded_pair_free(4) by (intro join_free) auto
  show "join ''&'' (map encoded_pair ps) \<noteq> []"
    using assms encoded_pair_free(5) by (intro join_not_Nil) (auto simp: hd_map)
  have "\<And>x. is_ws x \<Longrightarrow> x \<notin> set (join ''&'' (map encoded_pair ps))"
    using encoded_pair_free(6) by (intro join_free) (auto simp: is_ws_def)
  then show "\<forall>x\<in>set (join ''&'' (map encoded_pair ps)). \<not> is_ws x" by blast
qed

lemma url_ok_simps:
  assumes "url_ok u"
  shows "u \<noteq> []" "\<not> is_ws (hd u)" "\<not> is_ws (last u)" "CHR ''?'' \<notin> set u" "\<not> list_ex is_lt u"
  using assms by (auto simp: url_ok_def trimmed_def list_all_iff list_ex_iff)

text \<open>The URL with its query string, as the generator writes it and the parser cuts it.\<close>

lemma setRequestLine_generated:
  assumes u: "url_ok u" and ps: "list_all param_ok ps"
  shows "url (setRequestLine r m (buildUrl u ps)) = u"
    and "map kv (queryParams (setRequestLine r m (buildUrl u ps))) = map kv (queryParams r) @ map kv ps"
proof -
  note uf = url_ok_simps [OF u]
  let ?q = "join ''&'' (map encoded_pair ps)"
  have en: "map (\<lambda>p. (key p, val p, True)) ps = map kv ps"
    using ps by (simp add: list_all_iff param_ok_def kv_def)
  have "url (setRequestLine r m (buildUrl u ps)) = u \<and>
        map kv (queryParams (setRequestLine r m (buildUrl u ps))) = map kv (queryParams r) @ map kv ps"
  proof (cases "ps = []")
    case True
    have t: "trim u = u" using u by (simp add: url_ok_def trim_trimmed)
    have sp: "split (CHR ''?'') u = [u]" using uf(4) by (rule split_no_sep)
    show ?thesis
      using True t sp by (simp add: setRequestLine_def Let_def)
  next
    case False
    note qf = query_free [OF False]
    have "last (u @ CHR ''?'' # ?q) = last ?q" using qf(4) by simp
    moreover have "last ?q \<in> set ?q" using qf(4) by simp
    ultimately have "\<not> is_ws (last (u @ CHR ''?'' # ?q))" using qf(5) by auto
    then have "trimmed (u @ CHR ''?'' # ?q)" using uf(1,2) by (simp add: trimmed_def)
    then have t: "trim (u @ CHR ''?'' # ?q) = u @ CHR ''?'' # ?q" by (rule trim_trimmed)
    have sp: "split (CHR ''?'') (u @ CHR ''?'' # ?q) = [u, ?q]"
      using uf(4) qf(1) by (simp add: split_append_sep split_no_sep)
    show ?thesis
      using False t sp qf(4) en urlSearchParams_encoded [OF False]
      by (simp add: buildUrl_ok [OF ps] setRequestLine_def Let_def comp_def case_prod_beta)
  qed
  then show "url (setRequestLine r m (buildUrl u ps)) = u"
    and "map kv (queryParams (setRequestLine r m (buildUrl u ps))) = map kv (queryParams r) @ map kv ps"
    by simp_all
qed

lemma buildUrl_shape:
  assumes u: "url_ok u" and ps: "list_all param_ok ps"
  shows "buildUrl u ps \<noteq> []" "\<not> is_ws (hd (buildUrl u ps))" "\<not> is_ws (last (buildUrl u ps))"
    "\<not> list_ex is_lt (buildUrl u ps)" "LF \<notin> set (buildUrl u ps)"
proof -
  note uf = url_ok_simps [OF u]
  let ?q = "join ''&'' (map encoded_pair ps)"
  show "buildUrl u ps \<noteq> []" using uf(1) by (simp add: buildUrl_ok [OF ps])
  show "\<not> is_ws (hd (buildUrl u ps))" using uf(1,2) by (simp add: buildUrl_ok [OF ps])
  show "\<not> is_ws (last (buildUrl u ps))"
  proof (cases "ps = []")
    case True
    then show ?thesis using uf(3) by (simp add: buildUrl_ok [OF ps])
  next
    case False
    note qf = query_free [OF False]
    have "last ?q \<in> set ?q" using qf(4) by simp
    then show ?thesis using False qf(4,5) by (simp add: buildUrl_ok [OF ps])
  qed
  show lt: "\<not> list_ex is_lt (buildUrl u ps)"
  proof (cases "ps = []")
    case True
    then show ?thesis using uf(5) by (simp add: buildUrl_ok [OF ps])
  next
    case False
    note qf = query_free [OF False]
    show ?thesis using False uf(5) qf(2,3)
      by (auto simp: buildUrl_ok [OF ps] list_ex_iff is_lt_def)
  qed
  show "LF \<notin> set (buildUrl u ps)" using lt by (auto simp: list_ex_iff is_lt_def)
qed

lemma step_core_request:
  assumes s: "\<not> inScript s" and u: "url_ok u" and ps: "list_all param_ok ps"
  shows "core (parseLine s (method_name m @ '' '' @ buildUrl u ps)) =
           (m, u, map kv (headers (request s)), map kv (queryParams (request s)) @ map kv ps,
            inBody s, bodyLines s, False)"
proof -
  note g = buildUrl_shape [OF u ps]
  from method_name_head [of m] obtain c rest
    where c: "method_name m = c # rest" "c \<noteq> CHR ''#''" "c \<noteq> CHR ''{''" "c \<noteq> CHR ''}''"
      "c \<noteq> CHR ''/''" "\<not> is_ws c" by blast
  let ?line = "method_name m @ CHR '' '' # buildUrl u ps"
  have line: "?line = c # (rest @ CHR '' '' # buildUrl u ps)" using c(1) by simp
  have "trim ?line = ?line"
    unfolding line using c(6) g(1,3) by (intro trimmed_line) simp_all
  then have t: "trim ?line = c # (rest @ CHR '' '' # buildUrl u ps)" using line by simp
  have mt: "matchRequestLine (c # (rest @ CHR '' '' # buildUrl u ps)) = Some (m, buildUrl u ps)"
    using matchRequestLine_generated [OF g(1,2,4), of m] line by simp
  have "parseLine s ?line = s\<lparr>request := setRequestLine (request s) m (buildUrl u ps)\<rparr>"
    using s t c(2-5) mt by (rule step_request_line)
  then show ?thesis
    using s setRequestLine_generated [OF u ps, of "request s" m]
    by (simp add: core_def core_setRequestLine)
qed

subsection \<open>The sections of a generated text\<close>

lemma core_eq:
  "core s = (m, u, hs, ps, b, bl, sc) \<longleftrightarrow>
     req_method (request s) = m \<and> url (request s) = u \<and> map kv (headers (request s)) = hs \<and>
     map kv (queryParams (request s)) = ps \<and> inBody s = b \<and> bodyLines s = bl \<and> inScript s = sc"
  by (auto simp: core_def)

lemma key_trimmed:
  assumes "k \<noteq> []" "list_all key_char k"
  shows "trim k = k"
proof -
  have "hd k \<in> set k" "last k \<in> set k" using assms(1) by simp_all
  then have "\<not> is_ws (hd k)" "\<not> is_ws (last k)"
    using assms(2) key_char_simps by (auto simp: list_all_iff)
  then show ?thesis by (intro trim_trimmed) (simp add: trimmed_def)
qed

lemma step_core_header:
  assumes s: "\<not> inScript s" "\<not> inBody s" and h: "header_ok h"
  shows "core (parseLine s (key h @ '': '' @ val h)) =
           (req_method (request s), url (request s), map kv (headers (request s)) @ [kv h],
            map kv (queryParams (request s)), False, bodyLines s, False)"
proof -
  let ?k = "key h" and ?v = "val h"
  let ?w = "trimEnd (CHR '' '' # ?v)"
  from h have k: "?k \<noteq> []" "list_all key_char ?k" and v: "trimmed ?v" and en: "enabled h"
    by (simp_all add: header_ok_def)
  obtain c rest where c: "?k = c # rest" using k(1) by (cases ?k) auto
  have kc: "key_char c" "list_all key_char rest" using k(2) c by simp_all
  have cs: "c \<noteq> CHR ''#''" "c \<noteq> CHR ''{''" "c \<noteq> CHR ''}''" "c \<noteq> CHR ''/''" "\<not> is_ws c"
    using key_char_simps [OF kc(1)] by simp_all
  have nocolon: "CHR '':'' \<notin> set ?k" using k(2) key_char_simps by (auto simp: list_all_iff)
  have "trim (?k @ '': '' @ ?v) = c # trimEnd ((rest @ [CHR '':'']) @ CHR '' '' # ?v)"
    using c cs by (simp add: trim_nonws_Cons)
  also have "trimEnd ((rest @ [CHR '':'']) @ CHR '' '' # ?v) = (rest @ [CHR '':'']) @ ?w"
    by (rule trimEnd_append_nonws) (simp_all add: is_ws_def)
  finally have t: "trim (?k @ '': '' @ ?v) = c # (rest @ CHR '':'' # ?w)" by simp
  have t': "c # (rest @ CHR '':'' # ?w) = ?k @ CHR '':'' # ?w" using c by simp
  have nm: "matchRequestLine (c # (rest @ CHR '':'' # ?w)) = None"
    unfolding t' using k(2) by (rule header_not_request)
  have idx: "indexOfChar (c # (rest @ CHR '':'' # ?w)) (CHR '':'') = length ?k"
    unfolding t' indexOfChar_def using nocolon by (simp add: takeWhile_until)
  have tk: "trim (take (indexOfChar (c # (rest @ CHR '':'' # ?w)) (CHR '':'')) (c # (rest @ CHR '':'' # ?w))) = ?k"
    unfolding idx unfolding t' using key_trimmed [OF k] by simp
  have "trim ?w = ?v"
    using trim_trimEnd [of "CHR '' '' # ?v"] trim_trimmed [OF v] by (simp add: trim_ws_Cons)
  then have tv: "trim (drop (indexOfChar (c # (rest @ CHR '':'' # ?w)) (CHR '':'') + 1) (c # (rest @ CHR '':'' # ?w))) = ?v"
    unfolding idx unfolding t' by simp
  have "parseLine s (?k @ '': '' @ ?v) =
          s\<lparr>request := (request s)\<lparr>headers := headers (request s) @
                [\<lparr>key = ?k, val = ?v, enabled = True, kv_description = None\<rparr>]\<rparr>\<rparr>"
  proof -
    have colon: "CHR '':'' \<in> set (c # rest @ CHR '':'' # ?w)" by simp
    have nb: "\<not> startsWith ?k ''{''" using c cs by simp
    show ?thesis
      by (rule step_header_line [OF s(1) s(2) t cs(1) cs(2) cs(3) cs(4) nm colon tk tv k(1) nb])
  qed
  then show ?thesis using s en by (simp add: core_def kv_def)
qed

lemma core_flags: "core a = core b \<Longrightarrow> inScript a = inScript b \<and> inBody a = inBody b"
  by (simp add: core_def)

lemma section_hash:
  "\<forall>l\<in>set ls. startsWith (trim l) ''#'' \<Longrightarrow> core (foldl parseLine s ls) = core s"
  by (induction ls arbitrary: s) (simp_all add: step_hash)

lemma section_script:
  "inScript s \<Longrightarrow> \<forall>l\<in>set ls. \<not> startsWith (trim l) ''}}'' \<Longrightarrow> core (foldl parseLine s ls) = core s"
proof (induction ls arbitrary: s)
  case Nil
  then show ?case by simp
next
  case (Cons l ls)
  have c: "core (parseLine s l) = core s" using Cons.prems by (simp add: step_script)
  then have "inScript (parseLine s l)" using Cons.prems(1) core_flags by blast
  from Cons.IH [OF this] Cons.prems(2) c show ?case by simp
qed

lemma section_headers:
  assumes "\<not> inScript s" "\<not> inBody s" "list_all header_ok hs"
  shows "core (foldl parseLine s (map (\<lambda>h. key h @ '': '' @ val h) hs)) =
           (req_method (request s), url (request s), map kv (headers (request s)) @ map kv hs,
            map kv (queryParams (request s)), False, bodyLines s, False)"
  using assms
proof (induction hs arbitrary: s)
  case Nil
  then show ?case by (simp add: core_def)
next
  case (Cons h hs)
  have h: "header_ok h" and hs: "list_all header_ok hs" using Cons.prems(3) by simp_all
  note st = step_core_header [OF Cons.prems(1,2) h]
  let ?s' = "parseLine s (key h @ '': '' @ val h)"
  from st have f: "\<not> inScript ?s'" "\<not> inBody ?s'" by (simp_all add: core_eq)
  from Cons.IH [OF f hs] st show ?case by (simp add: core_eq)
qed

lemma section_plain:
  assumes "\<not> inScript s" "inBody s" "list_all plain_line ls"
  shows "core (foldl parseLine s ls) =
           (req_method (request s), url (request s), map kv (headers (request s)),
            map kv (queryParams (request s)), True, bodyLines s @ ls, False)"
  using assms
proof (induction ls arbitrary: s)
  case Nil
  then show ?case by (simp add: core_def)
next
  case (Cons l ls)
  have l: "plain_line l" and ls: "list_all plain_line ls" using Cons.prems(3) by simp_all
  note st = step_plain [OF Cons.prems(1,2) l]
  let ?s' = "parseLine s l"
  from st have f: "\<not> inScript ?s'" "inBody ?s'" by (simp_all add: core_eq)
  from Cons.IH [OF f ls] st show ?case by (simp add: core_eq)
qed

lemma split_join_concat:
  "ls \<noteq> [] \<Longrightarrow> split c (join [c] ls) = concat (map (split c) ls)"
proof (induction "[c]" ls rule: join.induct)
  case 1
  then show ?case by simp
next
  case (2 l)
  then show ?case by simp
next
  case (3 l v va)
  then show ?case by (simp add: split_append_sep)
qed

lemma lf_free_lines: "\<forall>l\<in>set ls. c \<notin> set l \<Longrightarrow> concat (map (split c) ls) = ls"
  by (induction ls) (simp_all add: split_no_sep)

lemma join_split: "join [c] (split c s) = s"
proof (induction s)
  case Nil
  then show ?case by simp
next
  case (Cons x xs)
  obtain l ls where sp: "split c xs = l # ls" by (cases "split c xs") auto
  show ?case
  proof (cases "x = c")
    case True
    then show ?thesis using Cons sp by simp
  next
    case False
    then show ?thesis using Cons sp by (cases ls) simp_all
  qed
qed

lemma join_snoc_blank: "ls \<noteq> [] \<Longrightarrow> join [c] (ls @ [[]]) = join [c] ls @ [c]"
  by (induction "[c]" ls rule: join.induct) simp_all

lemma trim_join_blank: "trim (join [LF] (X @ replicate j [])) = trim (join [LF] X)"
proof (induction j)
  case 0
  then show ?case by simp
next
  case (Suc j)
  have r: "X @ replicate (Suc j) [] = (X @ replicate j []) @ [[]]"
    by (simp add: replicate_append_same)
  show ?case
  proof (cases "X @ replicate j [] = []")
    case True
    then show ?thesis by simp
  next
    case False
    have "trim (join [LF] ((X @ replicate j []) @ [[]])) = trim (join [LF] (X @ replicate j []))"
      using join_snoc_blank [OF False, of LF] by (simp add: trim_append_ws)
    then show ?thesis using Suc r by simp
  qed
qed

lemma step_blank_nourl:
  assumes "core s = (m0, [], hs, ps, False, bl, False)"
  shows "core (parseLine s []) = (m0, [], hs, ps, False, bl, False)"
proof -
  from assms have f: "\<not> inScript s" "\<not> inBody s" "url (request s) = []" by (simp_all add: core_eq)
  show ?thesis using step_blank [OF f(1)] f assms by (simp add: core_def)
qed

lemma step_blank_url:
  assumes "core s = (m, u, hs, ps, ib, bl, False)" and "u \<noteq> []"
  shows "core (parseLine s []) = (m, u, hs, ps, True, (if ib then bl @ [[]] else bl), False)"
proof -
  from assms have f: "\<not> inScript s" "inBody s = ib" "url (request s) = u" by (simp_all add: core_eq)
  show ?thesis using step_blank [OF f(1)] f assms by (auto simp: core_def)
qed

lemma hash_line: "startsWith (trim (CHR ''#'' # x)) ''#''"
  by (simp add: trim_nonws_Cons is_ws_def)

lemma metaLines_section:
  assumes "core s = (m0, [], hs, ps, False, bl, False)"
  shows "core (foldl parseLine s (metaLines r)) = core s"
proof -
  define ls where "ls = (if name r \<noteq> [] then [''# @name '' @ name r] else []) @
               (case description r of
                  Some d \<Rightarrow> (if d \<noteq> [] then [''# @description '' @ d] else [])
                | None \<Rightarrow> []) @
               (case tags r of
                  Some ts \<Rightarrow> (if ts \<noteq> [] then [''# @tag '' @ join '', '' ts] else [])
                | None \<Rightarrow> [])"
  have h: "\<forall>l\<in>set ls. startsWith (trim l) ''#''"
    unfolding ls_def using hash_line by (auto split: option.splits)
  have c: "core (foldl parseLine s ls) = core s" using h by (rule section_hash)
  then have "core (foldl parseLine s ls) = (m0, [], hs, ps, False, bl, False)" using assms by simp
  then have "core (parseLine (foldl parseLine s ls) []) = (m0, [], hs, ps, False, bl, False)"
    by (rule step_blank_nourl)
  then have b: "core (foldl parseLine s (ls @ [[]])) = core s" using assms by simp
  have "metaLines r = (if ls \<noteq> [] then ls @ [[]] else [])"
    by (simp add: metaLines_def Let_def ls_def)
  then show ?thesis using b by simp
qed

lemma metaLines_lf_free:
  assumes "LF \<notin> set (name r)"
    and "case description r of Some d \<Rightarrow> LF \<notin> set d | None \<Rightarrow> True"
    and "case tags r of Some ts \<Rightarrow> list_all (\<lambda>t. LF \<notin> set t) ts | None \<Rightarrow> True"
  shows "\<forall>l\<in>set (metaLines r). LF \<notin> set l"
proof -
  have "\<And>ts. list_all (\<lambda>t. LF \<notin> set t) ts \<Longrightarrow> LF \<notin> set (join '', '' ts)"
    by (intro join_free) (auto simp: list_all_iff)
  then show ?thesis using assms
    by (auto simp: metaLines_def Let_def split: option.splits if_splits)
qed

lemma script_block:
  assumes c: "core s = (m, u, hs, ps, ib, bl, False)"
    and ok: "\<forall>l\<in>set ls. \<not> startsWith (trim l) ''}}''"
  shows "core (foldl parseLine s (''{{'' # ls @ [''}}''])) = (m, u, hs, ps, ib, bl, False)"
proof -
  have topen: "trim ''{{'' = ''{{''" and tclose: "trim ''}}'' = ''}}''" by code_simp+
  let ?a = "parseLine s ''{{''"
  have a: "core ?a = (m, u, hs, ps, ib, bl, True)"
    using c step_open [OF topen, of s] by (simp add: core_eq)
  then have "inScript ?a" by (simp add: core_eq)
  from section_script [OF this ok] a
  have b: "core (foldl parseLine ?a ls) = (m, u, hs, ps, ib, bl, True)" by simp
  have "core (parseLine (foldl parseLine ?a ls) ''}}'') = (m, u, hs, ps, ib, bl, False)"
    using b step_close [OF tclose, of "foldl parseLine ?a ls"] by (simp add: core_eq)
  then show ?thesis by simp
qed

lemma indented_script:
  assumes "list_all (\<lambda>l. \<not> startsWith (trim l) ''}}'') (split LF t)"
  shows "\<forall>l\<in>set (map (\<lambda>l. ''  '' @ l) (split LF t)). \<not> startsWith (trim l) ''}}''"
    and "\<forall>l\<in>set (map (\<lambda>l. ''  '' @ l) (split LF t)). LF \<notin> set l"
  using assms split_pieces_no_sep [of _ LF t] by (auto simp: list_all_iff)

lemma preRequestLines_section:
  assumes c: "core s = (m0, [], hs, ps, False, bl, False)" and ok: "script_ok (preRequest r)"
  shows "core (foldl parseLine s (preRequestLines r)) = core s"
    and "\<forall>l\<in>set (preRequestLines r). LF \<notin> set l"
proof -
  have pre: "\<not> startsWith (trim ''  // @pre'') ''}}''" by code_simp
  show "core (foldl parseLine s (preRequestLines r)) = core s"
  proof (cases "\<exists>p. preRequest r = Some p \<and> trim p \<noteq> []")
    case False
    then show ?thesis by (auto simp: preRequestLines_def split: option.splits)
  next
    case True
    then obtain p where p: "preRequest r = Some p" "trim p \<noteq> []" by blast
    define sl where "sl = ''  // @pre'' # map (\<lambda>l. ''  '' @ l) (split LF p)"
    define A where "A = ''{{'' # sl @ [''}}'']"
    have "\<forall>l\<in>set sl. \<not> startsWith (trim l) ''}}''"
      unfolding sl_def using indented_script(1) [of p] ok p pre by (simp add: script_ok_def)
    from script_block [OF c this]
    have "core (foldl parseLine s A) = (m0, [], hs, ps, False, bl, False)" unfolding A_def .
    then have "core (parseLine (foldl parseLine s A) []) = (m0, [], hs, ps, False, bl, False)"
      by (rule step_blank_nourl)
    then have "core (foldl parseLine s (A @ [[]])) = core s" using c by simp
    moreover have "preRequestLines r = A @ [[]]"
      using p by (simp add: preRequestLines_def A_def sl_def)
    ultimately show ?thesis by simp
  qed
  show "\<forall>l\<in>set (preRequestLines r). LF \<notin> set l"
    using split_pieces_no_sep [of _ LF]
    by (auto simp: preRequestLines_def split: option.splits)
qed

lemma bodyLinesOf_eq:
  "bodyLinesOf js r = (if generatedBody js r \<noteq> [] then [[], generatedBody js r] else [])"
  by (simp add: bodyLinesOf_def generatedBody_def split: option.splits)

lemma body_section:
  assumes c: "core s = (m, u, hs, ps, False, [], False)" and u: "u \<noteq> []"
    and pl: "list_all plain_line (split LF (generatedBody js r))"
  shows "core (foldl parseLine s (concat (map (split LF) (bodyLinesOf js r)))) =
           (m, u, hs, ps, generatedBody js r \<noteq> [],
            (if generatedBody js r \<noteq> [] then split LF (generatedBody js r) else []), False)"
proof (cases "generatedBody js r = []")
  case True
  then show ?thesis using c by (simp add: bodyLinesOf_eq)
next
  case False
  define B where "B = split LF (generatedBody js r)"
  have a: "core (parseLine s []) = (m, u, hs, ps, True, [], False)"
    using step_blank_url [OF c u] by simp
  then have f: "\<not> inScript (parseLine s [])" "inBody (parseLine s [])" by (simp_all add: core_eq)
  have "core (foldl parseLine (parseLine s []) B) = (m, u, hs, ps, True, B, False)"
    using section_plain [OF f, of B] pl a by (simp add: core_eq B_def)
  moreover have "concat (map (split LF) (bodyLinesOf js r)) = [] # B"
    using False by (simp add: bodyLinesOf_eq B_def)
  ultimately show ?thesis using False by (simp add: B_def)
qed

lemma tests_section:
  assumes c: "core s = (m, u, hs, ps, ib, X @ replicate j [], False)" and u: "u \<noteq> []"
    and ok: "script_ok (tests r)"
  shows "\<exists>j' ib'. core (foldl parseLine s (testLines r)) = (m, u, hs, ps, ib', X @ replicate j' [], False)"
proof (cases "\<exists>t. tests r = Some t \<and> trim t \<noteq> []")
  case False
  then have "testLines r = []" by (auto simp: testLines_def split: option.splits)
  then show ?thesis using c by auto
next
  case True
  then obtain t where t: "tests r = Some t" "trim t \<noteq> []" by blast
  define sl where "sl = map (\<lambda>l. ''  '' @ l) (split LF t)"
  define A where "A = ''{{'' # sl @ [''}}'']"
  have sl: "\<forall>l\<in>set sl. \<not> startsWith (trim l) ''}}''"
    unfolding sl_def using indented_script(1) [of t] ok t by (simp add: script_ok_def)
  have "core (parseLine s []) = (m, u, hs, ps, True, (if ib then (X @ replicate j []) @ [[]] else X @ replicate j []), False)"
    by (rule step_blank_url [OF c u])
  moreover have "(X @ replicate j []) @ [[]] = X @ replicate (Suc j) []"
    by (simp add: replicate_append_same)
  ultimately have "core (parseLine s []) = (m, u, hs, ps, True, X @ replicate (if ib then Suc j else j) [], False)"
    by simp
  from script_block [OF this sl]
  have "core (foldl parseLine (parseLine s []) A) = (m, u, hs, ps, True, X @ replicate (if ib then Suc j else j) [], False)"
    unfolding A_def .
  moreover have "testLines r = [] # A"
    using t by (simp add: testLines_def A_def sl_def)
  ultimately show ?thesis by auto
qed

lemma testLines_lf_free: "\<forall>l\<in>set (testLines r). LF \<notin> set l"
  using split_pieces_no_sep [of _ LF]
  by (auto simp: testLines_def split: option.splits)

lemma final_section:
  assumes c: "core s = (m, u, hs, ps, ib, X @ replicate j [], False)" and u: "u \<noteq> []"
  shows "\<exists>j'. core (foldl parseLine s [[], ''###'']) = (m, u, hs, ps, True, X @ replicate j' [], False)"
proof -
  have sep: "startsWith (trim ''###'') ''#''" by code_simp
  have "core (parseLine s []) = (m, u, hs, ps, True, (if ib then (X @ replicate j []) @ [[]] else X @ replicate j []), False)"
    by (rule step_blank_url [OF c u])
  moreover have "(X @ replicate j []) @ [[]] = X @ replicate (Suc j) []"
    by (simp add: replicate_append_same)
  ultimately have "core (parseLine s []) = (m, u, hs, ps, True, X @ replicate (if ib then Suc j else j) [], False)"
    by simp
  then have "core (parseLine (parseLine s []) ''###'') = (m, u, hs, ps, True, X @ replicate (if ib then Suc j else j) [], False)"
    using step_hash [OF sep, of "parseLine s []"] by simp
  then show ?thesis by auto
qed

lemma processBody_keeps:
  "req_method (processBody s) = req_method (request s)"
  "url (processBody s) = url (request s)"
  "headers (processBody s) = headers (request s)"
  "queryParams (processBody s) = queryParams (request s)"
  by (simp_all add: processBody_def Let_def)

lemma headerLines_ok:
  "list_all header_ok hs \<Longrightarrow> headers r = hs \<Longrightarrow>
   headerLines r = map (\<lambda>h. key h @ '': '' @ val h) hs \<and> (\<forall>l\<in>set (headerLines r). LF \<notin> set l)"
proof -
  assume ok: "list_all header_ok hs" and h: "headers r = hs"
  have "filter (\<lambda>h. enabled h \<and> key h \<noteq> []) hs = hs"
    using ok by (simp add: list_all_iff header_ok_def filter_id_conv)
  moreover have "\<And>h. header_ok h \<Longrightarrow> LF \<notin> set (key h)"
  proof
    fix h assume "header_ok h" and "LF \<in> set (key h)"
    then have "key_char LF" by (auto simp: header_ok_def list_all_iff)
    then have "\<not> is_ws LF" using key_char_simps by blast
    then show False by (simp add: is_ws_LF)
  qed
  ultimately show ?thesis using ok h
    by (auto simp: headerLines_def list_all_iff header_ok_def)
qed

lemma method_name_lf_free: "LF \<notin> set (method_name m)"
  by (cases m) simp_all

lemma core_initial: "core (initialState now uri) = (GET, [], [], [], False, [], False)"
  by (simp add: core_def initialState_def initialRequest_def)

lemma generated_text_parsed:
  assumes adm: "admissible js r"
  shows "\<exists>j. core (foldl parseLine (initialState now uri) (split LF (generate js r))) =
           (req_method r, url r, map kv (headers r), map kv (queryParams r), True,
            (if generatedBody js r \<noteq> [] then split LF (generatedBody js r) else []) @ replicate j [],
            False)"
proof -
  define b where "b = generatedBody js r"
  define M where "M = metaLines r"
  define P where "P = preRequestLines r"
  define R where "R = method_name (req_method r) @ '' '' @ buildUrl (url r) (queryParams r)"
  define H where "H = headerLines r"
  define B where "B = concat (map (split LF) (bodyLinesOf js r))"
  define T where "T = testLines r"
  define F where "F = [[], ''###'']"
  define X where "X = (if b \<noteq> [] then split LF b else [])"
  from adm have u: "url_ok (url r)" and ps: "list_all param_ok (queryParams r)"
    and hs: "list_all header_ok (headers r)"
    and pre: "script_ok (preRequest r)" and tst: "script_ok (tests r)"
    and pl: "list_all plain_line (split LF (generatedBody js r))"
    and nm: "LF \<notin> set (name r)"
    and ds: "case description r of Some d \<Rightarrow> LF \<notin> set d | None \<Rightarrow> True"
    and tg: "case tags r of Some ts \<Rightarrow> list_all (\<lambda>t. LF \<notin> set t) ts | None \<Rightarrow> True"
    by (simp_all add: admissible_def)
  have une: "url r \<noteq> []" using url_ok_simps(1) [OF u] .
  have Mf: "\<forall>l\<in>set M. LF \<notin> set l" unfolding M_def by (rule metaLines_lf_free [OF nm ds tg])
  have Rf: "LF \<notin> set R"
    unfolding R_def using buildUrl_shape(5) [OF u ps] method_name_lf_free [of "req_method r"]
    by simp
  note hl = headerLines_ok [OF hs refl]
  have Hf: "\<forall>l\<in>set H. LF \<notin> set l" unfolding H_def using hl by blast
  have Tf: "\<forall>l\<in>set T. LF \<notin> set l" unfolding T_def by (rule testLines_lf_free)
  have Ff: "\<forall>l\<in>set F. LF \<notin> set l" unfolding F_def by simp
  let ?s0 = "initialState now uri"
  define s1 where "s1 = foldl parseLine ?s0 M"
  define s2 where "s2 = foldl parseLine s1 P"
  define s3 where "s3 = parseLine s2 R"
  define s4 where "s4 = foldl parseLine s3 H"
  define s5 where "s5 = foldl parseLine s4 B"
  define s6 where "s6 = foldl parseLine s5 T"
  define s7 where "s7 = foldl parseLine s6 F"
  have c1: "core s1 = (GET, [], [], [], False, [], False)"
    unfolding s1_def M_def using metaLines_section [OF core_initial, of now uri r]
    by (simp add: core_initial)
  have c2: "core s2 = (GET, [], [], [], False, [], False)"
    unfolding s2_def P_def using preRequestLines_section(1) [OF c1 pre] c1 by simp
  have Pf: "\<forall>l\<in>set P. LF \<notin> set l"
    unfolding P_def by (rule preRequestLines_section(2) [OF c1 pre])
  from c2 have f2: "\<not> inScript s2" "headers (request s2) = []" "queryParams (request s2) = []"
    "\<not> inBody s2" "bodyLines s2 = []"
    by (simp_all add: core_eq)
  have c3: "core s3 = (req_method r, url r, [], map kv (queryParams r), False, [], False)"
    unfolding s3_def R_def using step_core_request [OF f2(1) u ps, of "req_method r"] f2
    by simp
  from c3 have f3: "\<not> inScript s3" "\<not> inBody s3" by (simp_all add: core_eq)
  have c4: "core s4 = (req_method r, url r, map kv (headers r), map kv (queryParams r), False, [], False)"
    unfolding s4_def H_def using section_headers [OF f3 hs] hl c3
    by (simp add: core_eq)
  have c5: "core s5 = (req_method r, url r, map kv (headers r), map kv (queryParams r), b \<noteq> [], X @ replicate 0 [], False)"
    unfolding s5_def B_def b_def X_def using body_section [OF c4 une pl] by simp
  from tests_section [OF c5 une tst] obtain j1 ib1
    where c6: "core s6 = (req_method r, url r, map kv (headers r), map kv (queryParams r), ib1, X @ replicate j1 [], False)"
    unfolding s6_def T_def by blast
  from final_section [OF c6 une] obtain j2
    where c7: "core s7 = (req_method r, url r, map kv (headers r), map kv (queryParams r), True, X @ replicate j2 [], False)"
    unfolding s7_def F_def by blast
  have "generate js r = join [LF] (M @ P @ [R] @ H @ bodyLinesOf js r @ T @ F)"
    by (simp add: generate_def M_def P_def R_def H_def T_def F_def)
  then have "split LF (generate js r) = concat (map (split LF) (M @ P @ [R] @ H @ bodyLinesOf js r @ T @ F))"
    by (simp add: split_join_concat)
  also have "\<dots> = concat (map (split LF) M) @ concat (map (split LF) P) @ split LF R @
                   concat (map (split LF) H) @ B @ concat (map (split LF) T) @ concat (map (split LF) F)"
    by (simp add: B_def)
  also have "\<dots> = M @ P @ [R] @ H @ B @ T @ F"
    by (simp only: lf_free_lines [OF Mf] lf_free_lines [OF Pf] lf_free_lines [OF Hf]
        lf_free_lines [OF Tf] lf_free_lines [OF Ff] split_no_sep [OF Rf])
  finally have "foldl parseLine ?s0 (split LF (generate js r)) = s7"
    by (simp only: foldl_append s1_def s2_def s3_def s4_def s5_def s6_def s7_def foldl.simps)
  then show ?thesis using c7 by (auto simp: X_def b_def)
qed

text \<open>
  Claim C1, as the code has it. For a request whose URL is not empty, has no white space at
  its ends, no line terminator and no \<open>?\<close>, whose headers are enabled with keys free of
  white space, \<open>:\<close>, \<open>#\<close>, \<open>/\<close>, \<open>{\<close> and \<open>}\<close> and with trimmed one-line values, whose
  query parameters are enabled with keys that are not empty, whose scripts have no line
  starting with \<open>}}\<close>, and whose generated body has no line that the parser takes for a
  comment, a separator, a script delimiter or a request line: parsing the generated text gives
  the method, the URL, the headers and the query parameters of the request, in their order,
  and the generated body, trimmed.
\<close>

theorem generate_parse_round_trip:
  assumes "admissible js m"
  shows "req_method (parseHttpText now (generate js m) uri) = req_method m \<and>
         url (parseHttpText now (generate js m) uri) = url m \<and>
         map kv (headers (parseHttpText now (generate js m) uri)) = map kv (headers m) \<and>
         map kv (queryParams (parseHttpText now (generate js m) uri)) = map kv (queryParams m) \<and>
         body_text (body (parseHttpText now (generate js m) uri)) = trim (generatedBody js m)"
proof -
  let ?s = "foldl parseLine (initialState now uri) (split LF (generate js m))"
  define X where "X = (if generatedBody js m \<noteq> [] then split LF (generatedBody js m) else [])"
  from generated_text_parsed [OF assms, of now uri] obtain j
    where c: "core ?s = (req_method m, url m, map kv (headers m), map kv (queryParams m), True,
                         X @ replicate j [], False)"
    unfolding X_def by blast
  have inv: "body_inv ?s"
    by (rule body_inv_foldl) (auto dest: split_pieces_no_sep simp: body_inv_initial)
  have jX: "join [LF] X = generatedBody js m"
    by (simp add: X_def join_split)
  have bl: "bodyLines ?s = X @ replicate j []" using c by (simp add: core_eq)
  have "body_text (body (processBody ?s)) = trim (join [LF] X)"
  proof (cases "bodyLines ?s = []")
    case True
    then have "X = []" using bl by simp
    then show ?thesis using True by (simp add: body_text_processBody [OF inv])
  next
    case False
    then show ?thesis
      by (simp only: body_text_processBody [OF inv] bl trim_join_blank if_False)
  qed
  then show ?thesis using c
    by (simp add: parseHttpText_def processBody_keeps core_eq jX)
qed

subsection \<open>A request that goes round\<close>

lemma login_admissible: "admissible no_gql login_request"
  by code_simp

lemma login_body: "trim (generatedBody no_gql login_request) = ''[1, 2]''"
  by code_simp

lemma login_fields:
  "req_method login_request = POST"
  "url login_request = ''https://api.example.com/login''"
  "map kv (headers login_request) = [(''Content-Type'', ''application/json'', True)]"
  "map kv (queryParams login_request) = [(''next'', ''/home page'', True)]"
  by (simp_all add: login_request_def kv_def)

theorem generate_parse_round_trip_witness:
  "admissible no_gql login_request \<and>
   req_method (parseHttpText 0 (generate no_gql login_request) None) = POST \<and>
   url (parseHttpText 0 (generate no_gql login_request) None) = ''https://api.example.com/login'' \<and>
   map kv (headers (parseHttpText 0 (generate no_gql login_request) None)) =
     [(''Content-Type'', ''application/json'', True)] \<and>
   map kv (queryParams (parseHttpText 0 (generate no_gql login_request) None)) =
     [(''next'', ''/home page'', True)] \<and>
   body_text (body (parseHttpText 0 (generate no_gql login_request) None)) = ''[1, 2]''"
  using generate_parse_round_trip [where js = no_gql and m = login_request and now = 0 and uri = None]
    login_admissible login_body login_fields
  by simp

subsection \<open>A request that does not\<close>

lemma heading_fields:
  "url heading_request \<noteq> []"
  "list_all enabled (headers heading_request)"
  "list_all enabled (queryParams heading_request)"
  "content (body heading_request) = Some ''# heading''"
  by (simp_all add: heading_request_def)

lemma heading_parsed:
  "body (parseHttpText 0 (generate no_gql heading_request) None) =
     \<lparr>btype = none, content = None, formData = None, gql = None\<rparr>"
  by code_simp

text \<open>
  Claim C1 as stated fails: the request has a URL, no header and no query parameter, and a raw
  body that is the line \<open># heading\<close>. The parser takes that line of the generated text for a
  comment, and the parsed request has no body.
\<close>

theorem comment_body_lost:
  "url heading_request \<noteq> [] \<and>
   list_all enabled (headers heading_request) \<and>
   list_all enabled (queryParams heading_request) \<and>
   content (body heading_request) = Some ''# heading'' \<and>
   content (body (parseHttpText 0 (generate no_gql heading_request) None)) = None \<and>
   body_text (body (parseHttpText 0 (generate no_gql heading_request) None)) = []"
  using heading_fields heading_parsed by (simp add: body_text_def)
end
